theory Spec2Isabelle
  imports Main "HOL-Library.Multiset" "HOL-Library.Sublist"
begin

section \<open>JavaScript values\<close>

text \<open>
  The values that flow through the engine. Numbers are the integers and \<open>NaN\<close> (the
  other doubles play no part in what follows); an object is known by its reference only.
\<close>

datatype jsval =
    JUndefined
  | JNull
  | JBool bool
  | JNum int
  | JNaN
  | JStr string
  | JObj nat

text \<open>The conversion to a boolean that \<^verbatim>\<open>if( v )\<close>, \<^verbatim>\<open>!v\<close> and \<^verbatim>\<open>v1 && v2\<close> perform.\<close>

fun truthy :: "jsval \<Rightarrow> bool" where
  "truthy JUndefined = False"
| "truthy JNull = False"
| "truthy (JBool b) = b"
| "truthy (JNum n) = (n \<noteq> 0)"
| "truthy JNaN = False"
| "truthy (JStr s) = (s \<noteq> [])"
| "truthy (JObj r) = True"

text \<open>Strict equality \<^verbatim>\<open>a === b\<close>: same type and same value, and \<open>NaN\<close> equals nothing.\<close>

definition js_strict_eq :: "jsval \<Rightarrow> jsval \<Rightarrow> bool" where
  "js_strict_eq a b = (a = b \<and> a \<noteq> JNaN)"

section \<open>Errors, promises and sources\<close>

datatype error = Error string | TypeError string

text \<open>A promise is known by how it settles.\<close>

datatype promise = Fulfilled jsval | Broken error

text \<open>
  What one invocation of an iterator does: it returns a raw value; it returns a promise
  whose \<^verbatim>\<open>then\<close> gives a promise with a \<^verbatim>\<open>fail\<close> method, as the promises of the
  promise library do; it returns another thenable, whose \<^verbatim>\<open>then\<close> gives an object
  without a \<^verbatim>\<open>fail\<close> method, as a native \<^verbatim>\<open>Promise\<close> does; or it throws.
\<close>

datatype outcome =
    Returns jsval
  | ReturnsPromise promise
  | ReturnsThenable promise
  | Throws error

text \<open>
  What \<^verbatim>\<open>callIter\<close> returns: a promise of the library, which the source returned or
  which \<^verbatim>\<open>callIter\<close> made around a raw value, or the other thenable the source
  returned, which \<^verbatim>\<open>isPromise\<close> accepts and \<^verbatim>\<open>callIter\<close> hands on as it is.
\<close>

datatype thenable = LibraryPromise promise | OtherThenable promise

fun settlement :: "thenable \<Rightarrow> promise" where
  "settlement (LibraryPromise p) = p"
| "settlement (OtherThenable p) = p"

text \<open>
  What \<^verbatim>\<open>callIter\<close> can find out about its argument: a function; an object whose
  \<^verbatim>\<open>next\<close> is a function; any other value that has properties; \<^verbatim>\<open>null\<close> or
  \<^verbatim>\<open>undefined\<close>, on which reading \<^verbatim>\<open>iter.next\<close> throws a \<^verbatim>\<open>TypeError\<close>.
\<close>

datatype shape = IsFunction | HasNext | NotInvokable | Nullish

text \<open>
  A source is its shape, the outcomes of its coming invocations, and the number of
  invocations made so far. A source whose listed outcomes are used up returns
  \<^verbatim>\<open>undefined\<close> from then on. The two sources of a comparison are distinct objects.
\<close>

record source =
  shape :: shape
  script :: "outcome list"
  pulls :: nat

text \<open>
  The invocation \<^verbatim>\<open>iter()\<close> or \<^verbatim>\<open>iter.next()\<close> and what \<^verbatim>\<open>callIter\<close> makes of
  its result: a raw value is wrapped into a resolved promise of the library, a promise or
  another thenable is returned as it is.
\<close>

definition invoke :: "source \<Rightarrow> (error + thenable) \<times> source" where
  "invoke iter =
     (let iter' = iter\<lparr>script := tl (script iter), pulls := Suc (pulls iter)\<rparr> in
      case script iter of
        [] \<Rightarrow> (Inr (LibraryPromise (Fulfilled JUndefined)), iter')
      | Returns v # rest \<Rightarrow> (Inr (LibraryPromise (Fulfilled v)), iter')
      | ReturnsPromise p # rest \<Rightarrow> (Inr (LibraryPromise p), iter')
      | ReturnsThenable p # rest \<Rightarrow> (Inr (OtherThenable p), iter')
      | Throws e # rest \<Rightarrow> (Inl e, iter'))"

text \<open>
  \<^verbatim>\<open>callIter\<close>: the promise for the next value, or the exception thrown, and the
  source afterwards.
\<close>

definition callIter :: "source \<Rightarrow> (error + thenable) \<times> source" where
  "callIter iter =
     (case shape iter of
        IsFunction \<Rightarrow> invoke iter
      | Nullish \<Rightarrow> (Inl (TypeError ''Cannot read property next''), iter)
      | HasNext \<Rightarrow> invoke iter
      | NotInvokable \<Rightarrow> (Inl (Error ''Iterator does not appear to be invokable''), iter))"

section \<open>Comparator and extractor defaults\<close>

text \<open>
  The default comparator. The relational comparison \<^verbatim>\<open>a < b\<close> is an operator of the
  language, which converts its operands before it compares them (a string against a
  number is parsed, an object is asked for its \<^verbatim>\<open>valueOf\<close>) and may throw while doing
  so. It is a parameter here: \<open>lt a b\<close> is what \<^verbatim>\<open>a < b\<close> answers, or the exception
  it throws. It is evaluated only when \<^verbatim>\<open>a === b\<close> is false.
\<close>

definition defaultCmp ::
  "(jsval \<Rightarrow> jsval \<Rightarrow> error + bool) \<Rightarrow> jsval \<Rightarrow> jsval \<Rightarrow> error + int" where
  "defaultCmp lt a b =
     (if js_strict_eq a b then Inr 0
      else (case lt a b of Inl e \<Rightarrow> Inl e | Inr smaller \<Rightarrow> Inr (if smaller then - 1 else 1)))"

record diff_record =
  rec_value :: jsval
  rec_exists :: string

definition defaultExtract :: "jsval \<Rightarrow> jsval \<Rightarrow> int \<Rightarrow> error + diff_record" where
  "defaultExtract v1 v2 cmpResult =
     (if truthy v1 \<and> truthy v2 then Inr \<lparr>rec_value = v1, rec_exists = ''both''\<rparr>
      else if truthy v1 then Inr \<lparr>rec_value = v1, rec_exists = ''left''\<rparr>
      else if truthy v2 then Inr \<lparr>rec_value = v2, rec_exists = ''right''\<rparr>
      else Inl (Error ''Invalid arguments passed to defaultExtract''))"

section \<open>The deferred result\<close>

text \<open>
  The deferred of the promise library: pending until it is resolved or rejected once;
  \<open>progress\<close> lists the values its progress listeners have been notified with. A settled
  deferred ignores every further call.
\<close>

datatype dstate = Pending | Resolved "diff_record list" | Rejected error

record deferred =
  dstate :: dstate
  progress :: "diff_record list list"

definition Deferred :: deferred where
  "Deferred = \<lparr>dstate = Pending, progress = []\<rparr>"

definition notify :: "diff_record list \<Rightarrow> deferred \<Rightarrow> deferred" where
  "notify rs d = (if dstate d = Pending then d\<lparr>progress := progress d @ [rs]\<rparr> else d)"

definition resolve :: "diff_record list \<Rightarrow> deferred \<Rightarrow> deferred" where
  "resolve rs d = (if dstate d = Pending then d\<lparr>dstate := Resolved rs\<rparr> else d)"

definition reject :: "error \<Rightarrow> deferred \<Rightarrow> deferred" where
  "reject e d = (if dstate d = Pending then d\<lparr>dstate := Rejected e\<rparr> else d)"

section \<open>The engine\<close>

text \<open>
  The callback the engine has registered and that the next turn of the event loop runs:
  on the two promises of \<^verbatim>\<open>_stepBoth\<close>, on the left promise with the right value held
  (\<^verbatim>\<open>_stepLeft\<close>), or on the right promise with the left value held
  (\<^verbatim>\<open>_stepRight\<close>). \<open>LeftT\<close> and \<open>RightT\<close> are callbacks registered with
  \<^verbatim>\<open>.then( callback ).fail( handler )\<close> on a promise of the library. \<open>LeftBare\<close> and
  \<open>RightBare\<close> are callbacks registered by \<^verbatim>\<open>.then( callback )\<close> on another
  thenable, where the call of \<^verbatim>\<open>.fail\<close> that follows has thrown: no handler stands
  behind them.
\<close>

datatype task =
    NoTask
  | BothT promise promise
  | LeftT promise jsval
  | RightT jsval promise
  | LeftBare promise jsval
  | RightBare jsval promise

text \<open>
  An instance: \<^verbatim>\<open>compareFn\<close>, \<^verbatim>\<open>extractFn\<close>, \<^verbatim>\<open>_deferred\<close> (\<open>None\<close> is
  \<^verbatim>\<open>null\<close>), \<^verbatim>\<open>_iter1\<close>, \<^verbatim>\<open>_iter2\<close>, \<^verbatim>\<open>_results\<close>, and the registered callback.
  The comparator returns an integer or throws.
\<close>

record engine =
  compareFn :: "jsval \<Rightarrow> jsval \<Rightarrow> error + int"
  extractFn :: "jsval \<Rightarrow> jsval \<Rightarrow> int \<Rightarrow> error + diff_record"
  deferred :: "deferred option"
  iter1 :: source
  iter2 :: source
  results :: "diff_record list"
  pending :: task

record options =
  opt_compareFn :: "(jsval \<Rightarrow> jsval \<Rightarrow> error + int) option"
  opt_extractFn :: "(jsval \<Rightarrow> jsval \<Rightarrow> int \<Rightarrow> error + diff_record) option"

definition no_source :: source where
  "no_source = \<lparr>shape = Nullish, script = [], pulls = 0\<rparr>"

text \<open>
  The constructor, for the relational comparison \<open>lt\<close> of the language. The fields that
  \<^verbatim>\<open>compare\<close> sets first are still undefined.
\<close>

definition IterativeCompare ::
  "(jsval \<Rightarrow> jsval \<Rightarrow> error + bool) \<Rightarrow> options \<Rightarrow> engine" where
  "IterativeCompare lt opts =
     \<lparr>compareFn = (case opt_compareFn opts of Some f \<Rightarrow> f | None \<Rightarrow> defaultCmp lt),
      extractFn = (case opt_extractFn opts of Some f \<Rightarrow> f | None \<Rightarrow> defaultExtract),
      deferred = None,
      iter1 = no_source,
      iter2 = no_source,
      results = [],
      pending = NoTask\<rparr>"

text \<open>
  \<^verbatim>\<open>_addResult\<close>. The comparison result is \<open>None\<close> where the source passes
  \<^verbatim>\<open>null\<close>: \<^verbatim>\<open>null === 0\<close>, \<^verbatim>\<open>null < 0\<close> and \<^verbatim>\<open>null > 0\<close> are all false. An
  exception of the extractor leaves the method before the push and the notification.
\<close>

definition addResult :: "engine \<Rightarrow> jsval \<Rightarrow> jsval \<Rightarrow> int option \<Rightarrow> (error + unit) \<times> engine" where
  "addResult s v1 v2 cmpResult =
     (let pushed =
        (if cmpResult = Some 0 \<and> truthy v1 \<and> truthy v2 then
           (case extractFn s v1 v2 0 of Inl e \<Rightarrow> Inl e | Inr r \<Rightarrow> Inr (results s @ [r]))
         else if (case cmpResult of Some c \<Rightarrow> c < 0 | None \<Rightarrow> False) \<or> \<not> truthy v2 then
           (case extractFn s v1 JNull (- 1) of Inl e \<Rightarrow> Inl e | Inr r \<Rightarrow> Inr (results s @ [r]))
         else if (case cmpResult of Some c \<Rightarrow> c > 0 | None \<Rightarrow> False) \<or> \<not> truthy v1 then
           (case extractFn s JNull v2 1 of Inl e \<Rightarrow> Inl e | Inr r \<Rightarrow> Inr (results s @ [r]))
         else Inr (results s))
      in case pushed of
           Inl e \<Rightarrow> (Inl e, s)
         | Inr rs \<Rightarrow> (Inr (), s\<lparr>results := rs, deferred := map_option (notify rs) (deferred s)\<rparr>))"

text \<open>
  \<^verbatim>\<open>_stepLeft\<close> and \<^verbatim>\<open>_stepRight\<close>: the pull happens at once. An exception
  thrown by \<^verbatim>\<open>callIter\<close> leaves the method before anything is registered. On a
  promise of the library, \<^verbatim>\<open>.then( callback ).fail( handler )\<close> registers both for a
  later turn. On another thenable, \<^verbatim>\<open>.then( callback )\<close> registers the callback and
  the call of \<^verbatim>\<open>.fail\<close> on its result throws a \<^verbatim>\<open>TypeError\<close>, which leaves the
  method with the callback registered.
\<close>

definition stepLeft :: "engine \<Rightarrow> jsval \<Rightarrow> (error + unit) \<times> engine" where
  "stepLeft s rightVal =
     (case callIter (iter1 s) of
        (Inl e, it) \<Rightarrow> (Inl e, s\<lparr>iter1 := it\<rparr>)
      | (Inr (LibraryPromise p), it) \<Rightarrow> (Inr (), s\<lparr>iter1 := it, pending := LeftT p rightVal\<rparr>)
      | (Inr (OtherThenable p), it) \<Rightarrow>
          (Inl (TypeError ''fail is not a function''),
           s\<lparr>iter1 := it, pending := LeftBare p rightVal\<rparr>))"

definition stepRight :: "engine \<Rightarrow> jsval \<Rightarrow> (error + unit) \<times> engine" where
  "stepRight s leftVal =
     (case callIter (iter2 s) of
        (Inl e, it) \<Rightarrow> (Inl e, s\<lparr>iter2 := it\<rparr>)
      | (Inr (LibraryPromise p), it) \<Rightarrow> (Inr (), s\<lparr>iter2 := it, pending := RightT leftVal p\<rparr>)
      | (Inr (OtherThenable p), it) \<Rightarrow>
          (Inl (TypeError ''fail is not a function''),
           s\<lparr>iter2 := it, pending := RightBare leftVal p\<rparr>))"

text \<open>
  \<^verbatim>\<open>_stepBoth\<close>: both pulls happen at once, the left one first. \<^verbatim>\<open>all\<close> takes
  promises of the library and other thenables alike and gives a promise of the library,
  on which the callback and the handler are registered.
\<close>

definition stepBoth :: "engine \<Rightarrow> (error + unit) \<times> engine" where
  "stepBoth s =
     (case callIter (iter1 s) of
        (Inl e, it1) \<Rightarrow> (Inl e, s\<lparr>iter1 := it1\<rparr>)
      | (Inr t1, it1) \<Rightarrow>
          (case callIter (iter2 s) of
             (Inl e, it2) \<Rightarrow> (Inl e, s\<lparr>iter1 := it1, iter2 := it2\<rparr>)
           | (Inr t2, it2) \<Rightarrow>
               (Inr (), s\<lparr>iter1 := it1, iter2 := it2,
                          pending := BothT (settlement t1) (settlement t2)\<rparr>)))"

definition step :: "engine \<Rightarrow> jsval \<Rightarrow> jsval \<Rightarrow> int \<Rightarrow> (error + unit) \<times> engine" where
  "step s v1 v2 cmp =
     (if cmp = 0 then stepBoth s
      else if cmp < 0 then stepLeft s v2
      else stepRight s v1)"

definition compareValues :: "engine \<Rightarrow> jsval \<Rightarrow> jsval \<Rightarrow> (error + unit) \<times> engine" where
  "compareValues s val1 val2 =
     (if truthy val1 \<and> truthy val2 then
        (case compareFn s val1 val2 of
           Inl e \<Rightarrow> (Inl e, s)
         | Inr cmp \<Rightarrow>
             (case addResult s val1 val2 (Some cmp) of
                (Inl e, s') \<Rightarrow> (Inl e, s')
              | (Inr u, s') \<Rightarrow> step s' val1 val2 cmp))
      else if truthy val1 then
        (case addResult s val1 val2 None of
           (Inl e, s') \<Rightarrow> (Inl e, s')
         | (Inr u, s') \<Rightarrow> stepLeft s' JUndefined)
      else if truthy val2 then
        (case addResult s val1 val2 None of
           (Inl e, s') \<Rightarrow> (Inl e, s')
         | (Inr u, s') \<Rightarrow> stepRight s' JUndefined)
      else (Inr (), s\<lparr>deferred := map_option (resolve (results s)) (deferred s)\<rparr>))"

text \<open>
  \<^verbatim>\<open>.then( callback ).fail( handler )\<close>: an exception of the callback reaches the
  handler, which rejects the deferred.
\<close>

definition on_fail :: "(error + unit) \<times> engine \<Rightarrow> engine" where
  "on_fail r =
     (case r of
        (Inl e, s) \<Rightarrow> s\<lparr>deferred := map_option (reject e) (deferred s)\<rparr>
      | (Inr u, s) \<Rightarrow> s)"

text \<open>
  \<^verbatim>\<open>all( [ p1, p2 ] )\<close>: the two values, or the rejection; when both promises are
  rejected, the left one's.
\<close>

definition all2 :: "promise \<Rightarrow> promise \<Rightarrow> error + jsval \<times> jsval" where
  "all2 p1 p2 =
     (case p1 of
        Broken e \<Rightarrow> Inl e
      | Fulfilled v1 \<Rightarrow> (case p2 of Broken e \<Rightarrow> Inl e | Fulfilled v2 \<Rightarrow> Inr (v1, v2)))"

text \<open>
  One turn of the event loop: the registered callback, if any, runs to its end. An
  exception of a callback without a handler, and the rejection of the thenable it waits
  for, reach nobody: the instance is left as the callback left it.
\<close>

definition tick :: "engine \<Rightarrow> engine" where
  "tick s =
     (case pending s of
        NoTask \<Rightarrow> s
      | BothT p1 p2 \<Rightarrow>
          (case all2 p1 p2 of
             Inl e \<Rightarrow> on_fail (Inl e, s\<lparr>pending := NoTask\<rparr>)
           | Inr (v1, v2) \<Rightarrow> on_fail (compareValues (s\<lparr>pending := NoTask\<rparr>) v1 v2))
      | LeftT p rightVal \<Rightarrow>
          (case p of
             Broken e \<Rightarrow> on_fail (Inl e, s\<lparr>pending := NoTask\<rparr>)
           | Fulfilled v \<Rightarrow> on_fail (compareValues (s\<lparr>pending := NoTask\<rparr>) v rightVal))
      | RightT leftVal p \<Rightarrow>
          (case p of
             Broken e \<Rightarrow> on_fail (Inl e, s\<lparr>pending := NoTask\<rparr>)
           | Fulfilled v \<Rightarrow> on_fail (compareValues (s\<lparr>pending := NoTask\<rparr>) leftVal v))
      | LeftBare p rightVal \<Rightarrow>
          (case p of
             Broken e \<Rightarrow> s\<lparr>pending := NoTask\<rparr>
           | Fulfilled v \<Rightarrow> snd (compareValues (s\<lparr>pending := NoTask\<rparr>) v rightVal))
      | RightBare leftVal p \<Rightarrow>
          (case p of
             Broken e \<Rightarrow> s\<lparr>pending := NoTask\<rparr>
           | Fulfilled v \<Rightarrow> snd (compareValues (s\<lparr>pending := NoTask\<rparr>) leftVal v)))"

fun run :: "nat \<Rightarrow> engine \<Rightarrow> engine" where
  "run 0 s = s"
| "run (Suc n) s = run n (tick s)"

text \<open>
  \<^verbatim>\<open>compare\<close>: \<open>Inl e\<close> when the call throws \<open>e\<close>, \<open>Inr ()\<close> when it returns the
  promise of the deferred; and the instance afterwards.
\<close>

definition compare :: "engine \<Rightarrow> source \<Rightarrow> source \<Rightarrow> (error + unit) \<times> engine" where
  "compare s i1 i2 =
     (if deferred s \<noteq> None then (Inl (Error ''Already comparing''), s)
      else stepBoth (s\<lparr>iter1 := i1, iter2 := i2, results := [], deferred := Some Deferred\<rparr>))"

section \<open>Sources that deliver a given sequence\<close>

text \<open>
  The source of a finite sequence: a function that returns the elements one by one and
  \<^verbatim>\<open>undefined\<close> afterwards.
\<close>

definition source_of :: "jsval list \<Rightarrow> source" where
  "source_of xs = \<lparr>shape = IsFunction, script = map Returns xs, pulls = 0\<rparr>"

definition no_options :: options where
  "no_options = \<lparr>opt_compareFn = None, opt_extractFn = None\<rparr>"

text \<open>
  The value an invocation hands to the engine, directly or through a fulfilled promise of
  the library.
\<close>

fun yields :: "outcome \<Rightarrow> jsval option" where
  "yields (Returns v) = Some v"
| "yields (ReturnsPromise (Fulfilled v)) = Some v"
| "yields (ReturnsPromise (Broken e)) = None"
| "yields (ReturnsThenable p) = None"
| "yields (Throws e) = None"

text \<open>A source that never returns a thenable other than a promise of the library.\<close>

fun of_library :: "outcome \<Rightarrow> bool" where
  "of_library (ReturnsThenable p) = False"
| "of_library out = True"

definition library_only :: "source \<Rightarrow> bool" where
  "library_only it = list_all of_library (script it)"

text \<open>
  \<open>feeds it xs\<close>: the source is invokable, its coming invocations deliver exactly the
  values \<open>xs\<close>, and the invocation after them, if the script lists one, delivers a falsy
  value (a script that ends there returns \<^verbatim>\<open>undefined\<close>).
\<close>

fun feeds_script :: "outcome list \<Rightarrow> jsval list \<Rightarrow> bool" where
  "feeds_script [] [] = True"
| "feeds_script (out # outs) [] = (case yields out of Some v \<Rightarrow> \<not> truthy v | None \<Rightarrow> False)"
| "feeds_script [] (x # xs) = False"
| "feeds_script (out # outs) (x # xs) = (yields out = Some x \<and> feeds_script outs xs)"

definition feeds :: "source \<Rightarrow> jsval list \<Rightarrow> bool" where
  "feeds it xs = ((shape it = IsFunction \<or> shape it = HasNext) \<and> feeds_script (script it) xs)"

text \<open>
  One side of a merge under way: \<open>v\<close> is the value the engine holds for the side and
  \<open>xs\<close> what remains of its sequence, \<open>v\<close> included. An exhausted side holds a falsy
  value.
\<close>

definition side :: "source \<Rightarrow> jsval \<Rightarrow> jsval list \<Rightarrow> bool" where
  "side it v xs = (case xs of [] \<Rightarrow> \<not> truthy v | x # xs' \<Rightarrow> v = x \<and> feeds it xs')"

section \<open>The callback's input\<close>

text \<open>
  What the registered callback is about to receive: the rejection of a promise it waits
  for, or the two values \<^verbatim>\<open>_compareValues\<close> is called with.
\<close>

fun delivered :: "task \<Rightarrow> (error + jsval \<times> jsval) option" where
  "delivered NoTask = None"
| "delivered (BothT p1 p2) = Some (all2 p1 p2)"
| "delivered (LeftT (Broken e) rightVal) = Some (Inl e)"
| "delivered (LeftT (Fulfilled v) rightVal) = Some (Inr (v, rightVal))"
| "delivered (RightT leftVal (Broken e)) = Some (Inl e)"
| "delivered (RightT leftVal (Fulfilled v)) = Some (Inr (leftVal, v))"
| "delivered (LeftBare (Broken e) rightVal) = Some (Inl e)"
| "delivered (LeftBare (Fulfilled v) rightVal) = Some (Inr (v, rightVal))"
| "delivered (RightBare leftVal (Broken e)) = Some (Inl e)"
| "delivered (RightBare leftVal (Fulfilled v)) = Some (Inr (leftVal, v))"

text \<open>The callback was registered together with the handler that rejects the deferred.\<close>

fun guarded :: "task \<Rightarrow> bool" where
  "guarded (LeftBare p rightVal) = False"
| "guarded (RightBare leftVal p) = False"
| "guarded t = True"

section \<open>The specification: a three-way sorted-merge comparison\<close>

definition left_record :: "jsval \<Rightarrow> diff_record" where
  "left_record v = \<lparr>rec_value = v, rec_exists = ''left''\<rparr>"

definition right_record :: "jsval \<Rightarrow> diff_record" where
  "right_record v = \<lparr>rec_value = v, rec_exists = ''right''\<rparr>"

definition both_record :: "jsval \<Rightarrow> diff_record" where
  "both_record v = \<lparr>rec_value = v, rec_exists = ''both''\<rparr>"

text \<open>
  The comparison as the specification describes it, on two lists: equal heads give one
  \<open>both\<close> record and both lists advance; otherwise the lesser head gives a \<open>left\<close> or a
  \<open>right\<close> record and its list advances; what remains of one list when the other is
  used up is all \<open>left\<close> or all \<open>right\<close>. This definition is not taken from the code:
  the engine is compared with it.
\<close>

fun merge_diff :: "(jsval \<Rightarrow> jsval \<Rightarrow> int) \<Rightarrow> jsval list \<Rightarrow> jsval list \<Rightarrow> diff_record list" where
  "merge_diff cmp [] [] = []"
| "merge_diff cmp (a # as) [] = left_record a # merge_diff cmp as []"
| "merge_diff cmp [] (b # bs) = right_record b # merge_diff cmp [] bs"
| "merge_diff cmp (a # as) (b # bs) =
     (if cmp a b = 0 then both_record a # merge_diff cmp as bs
      else if cmp a b < 0 then left_record a # merge_diff cmp as (b # bs)
      else right_record b # merge_diff cmp (a # as) bs)"

text \<open>The values of the records that carry a given tag, in the order of the list.\<close>

definition tagged :: "string \<Rightarrow> diff_record list \<Rightarrow> jsval list" where
  "tagged t rs = map rec_value (filter (\<lambda>r. rec_exists r = t) rs)"

text \<open>
  The comparator orders the elements of the two sequences as a key does: it answers 0
  exactly on equal keys and a negative number exactly on a smaller left key.
\<close>

definition ordered_by ::
  "(jsval \<Rightarrow> 'k::linorder) \<Rightarrow> (jsval \<Rightarrow> jsval \<Rightarrow> int) \<Rightarrow> jsval list \<Rightarrow> jsval list \<Rightarrow> bool" where
  "ordered_by key cmp as bs =
     (\<forall>a\<in>set as. \<forall>b\<in>set bs. (cmp a b = 0 \<longleftrightarrow> key a = key b) \<and> (cmp a b < 0 \<longleftrightarrow> key a < key b))"

text \<open>The key of a number, and the order of numbers by their keys as a pure function.\<close>

definition num_key :: "jsval \<Rightarrow> int" where
  "num_key v = (case v of JNum n \<Rightarrow> n | _ \<Rightarrow> 0)"

definition number_order :: "jsval \<Rightarrow> jsval \<Rightarrow> int" where
  "number_order a b =
     (if num_key a = num_key b then 0 else (if num_key a < num_key b then - 1 else 1))"

text \<open>
  What \<^verbatim>\<open>a < b\<close> answers when each operand is a number: the order of the integers,
  and false when an operand is \<open>NaN\<close>. Nothing is said of other operands. The examples
  below take it for the operator of the language; every comparison they make is between
  two numbers.
\<close>

fun number_lt :: "jsval \<Rightarrow> jsval \<Rightarrow> error + bool" where
  "number_lt (JNum x) (JNum y) = Inr (x < y)"
| "number_lt (JNum x) JNaN = Inr False"
| "number_lt JNaN (JNum y) = Inr False"
| "number_lt JNaN JNaN = Inr False"

section \<open>Notions used in the proofs\<close>

text \<open>The push and the progress notification of \<^verbatim>\<open>_addResult\<close>, for one record.\<close>

definition emit :: "diff_record \<Rightarrow> engine \<Rightarrow> engine" where
  "emit r s = s\<lparr>results := results s @ [r],
               deferred := map_option (notify (results s @ [r])) (deferred s)\<rparr>"

text \<open>
  A merge under way, between two callbacks: the operation is pending, nothing is
  registered, and each side holds the head of what remains of its sequence.
\<close>

definition merging ::
  "(jsval \<Rightarrow> jsval \<Rightarrow> int) \<Rightarrow> engine \<Rightarrow> jsval \<Rightarrow> jsval \<Rightarrow> jsval list \<Rightarrow> jsval list \<Rightarrow> bool" where
  "merging cmp s v1 v2 as bs =
     (list_all truthy as \<and> list_all truthy bs
      \<and> (\<forall>a\<in>set as. \<forall>b\<in>set bs. compareFn s a b = Inr (cmp a b))
      \<and> extractFn s = defaultExtract
      \<and> map_option dstate (deferred s) = Some Pending
      \<and> pending s = NoTask
      \<and> side (iter1 s) v1 as \<and> side (iter2 s) v2 bs)"

text \<open>
  \<open>t\<close> is the end of a run from \<open>s\<close> that has added the records \<open>rs\<close>, resolved with
  the whole list, and invoked the sources \<open>k1\<close> and \<open>k2\<close> times.
\<close>

definition finished :: "engine \<Rightarrow> diff_record list \<Rightarrow> nat \<Rightarrow> nat \<Rightarrow> engine \<Rightarrow> bool" where
  "finished s rs k1 k2 t =
     (pending t = NoTask \<and> results t = results s @ rs
      \<and> map_option dstate (deferred t) = Some (Resolved (results s @ rs))
      \<and> pulls (iter1 t) = pulls (iter1 s) + k1
      \<and> pulls (iter2 t) = pulls (iter2 s) + k2)"

section \<open>Progress\<close>

text \<open>The lists the progress listeners have been notified with so far.\<close>

definition prog :: "engine \<Rightarrow> diff_record list list" where
  "prog s = (case deferred s of None \<Rightarrow> [] | Some d \<Rightarrow> progress d)"

text \<open>The non-empty prefixes of a list, shortest first.\<close>

definition prefixes_of :: "'a list \<Rightarrow> 'a list list" where
  "prefixes_of rs = map (\<lambda>k. take k rs) [1..<Suc (length rs)]"

text \<open>
  From \<open>s\<close> to \<open>t\<close> either nothing was added and nothing notified, or one record was
  appended and one notification was made, with the whole list.
\<close>

definition grows :: "engine \<Rightarrow> engine \<Rightarrow> bool" where
  "grows s t =
     ((results t = results s \<and> prog t = prog s)
      \<or> (results t \<noteq> [] \<and> butlast (results t) = results s \<and> prog t = prog s @ [results t]))"

text \<open>
  The invariant of an instance that has been started on sources that return no thenable
  other than promises of the library: the deferred exists, the notifications made are the
  non-empty prefixes of the results, a callback is registered only while the operation is
  pending, and it has its handler.
\<close>

definition on_library :: "engine \<Rightarrow> bool" where
  "on_library s = (guarded (pending s) \<and> library_only (iter1 s) \<and> library_only (iter2 s))"

definition sound :: "engine \<Rightarrow> bool" where
  "sound s =
     (deferred s \<noteq> None \<and> prog s = prefixes_of (results s)
      \<and> (pending s \<noteq> NoTask \<longrightarrow> map_option dstate (deferred s) = Some Pending)
      \<and> on_library s)"

section \<open>Named inputs\<close>

text \<open>The error \<^verbatim>\<open>callIter\<close> throws on a value it cannot invoke.\<close>

definition invalid_shape_error :: error where
  "invalid_shape_error = Error ''Iterator does not appear to be invokable''"

text \<open>A value with properties but no \<^verbatim>\<open>next\<close> method, such as a number or a plain object.\<close>

definition not_a_source :: source where
  "not_a_source = \<lparr>shape = NotInvokable, script = [], pulls = 0\<rparr>"

text \<open>A custom comparator that finds any two elements equal.\<close>

definition always_equal :: "jsval \<Rightarrow> jsval \<Rightarrow> error + int" where
  "always_equal a b = Inr 0"



text \<open>
  An object with a \<^verbatim>\<open>next\<close> method that returns thenables other than promises of the
  library, such as native promises, one for each of the given settlements.
\<close>

definition thenable_source :: "promise list \<Rightarrow> source" where
  "thenable_source ps = \<lparr>shape = HasNext, script = map ReturnsThenable ps, pulls = 0\<rparr>"

text \<open>A custom extractor that returns the same record whatever it is given.\<close>

definition constant_extract :: "jsval \<Rightarrow> jsval \<Rightarrow> int \<Rightarrow> error + diff_record" where
  "constant_extract v1 v2 cmpResult = Inr \<lparr>rec_value = JNull, rec_exists = ''changed''\<rparr>"

section \<open>Basic facts about the engine\<close>

subsection \<open>The deferred, once set, stays set\<close>

lemma deferred_stepLeft [simp]: "deferred (snd (stepLeft s v)) = deferred s"
  by (simp add: stepLeft_def split: prod.splits sum.splits thenable.splits)

lemma deferred_stepRight [simp]: "deferred (snd (stepRight s v)) = deferred s"
  by (simp add: stepRight_def split: prod.splits sum.splits thenable.splits)

lemma deferred_stepBoth [simp]: "deferred (snd (stepBoth s)) = deferred s"
  by (simp add: stepBoth_def split: prod.splits sum.splits thenable.splits)

lemma deferred_step [simp]: "deferred (snd (step s v1 v2 c)) = deferred s"
  by (simp add: step_def)

lemma deferred_addResult [simp]:
  "(deferred (snd (addResult s v1 v2 c)) = None) = (deferred s = None)"
  by (simp add: addResult_def Let_def split: sum.splits)

lemma deferred_compareValues [simp]:
  "(deferred (snd (compareValues s v1 v2)) = None) = (deferred s = None)"
proof -
  have a: "\<And>c e s'. addResult s v1 v2 c = (e, s') \<Longrightarrow> (deferred s' = None) = (deferred s = None)"
    using deferred_addResult by (metis snd_conv)
  have b: "\<And>s' c. deferred (snd (step s' v1 v2 c)) = deferred s'" by simp
  show ?thesis
    unfolding compareValues_def
    by (auto split: sum.splits prod.splits dest: a simp del: deferred_addResult)
qed

lemma deferred_on_fail [simp]:
  "(deferred (on_fail (r, s)) = None) = (deferred s = None)"
  by (simp add: on_fail_def split: sum.splits)

lemma deferred_tick [simp]: "(deferred (tick s) = None) = (deferred s = None)"
proof -
  have c: "\<And>s' v1 v2. (deferred (on_fail (compareValues s' v1 v2)) = None) = (deferred s' = None)"
    by (metis deferred_compareValues deferred_on_fail prod.collapse)
  show ?thesis
    unfolding tick_def
    by (simp add: c split: task.splits sum.splits promise.splits prod.splits)
qed

lemma deferred_run [simp]: "(deferred (run n s) = None) = (deferred s = None)"
  by (induction n arbitrary: s) simp_all

lemma compare_again:
  "deferred s \<noteq> None \<Longrightarrow> compare s j1 j2 = (Inl (Error ''Already comparing''), s)"
  by (simp add: compare_def)

lemma deferred_compare: "deferred (snd (compare s i1 i2)) \<noteq> None"
  by (simp add: compare_def)

subsection \<open>Turns of the event loop\<close>

lemma tick_delivered:
  "guarded (pending s) \<Longrightarrow>
   tick s =
     (case delivered (pending s) of
        None \<Rightarrow> s
      | Some (Inl e) \<Rightarrow> on_fail (Inl e, s\<lparr>pending := NoTask\<rparr>)
      | Some (Inr (v1, v2)) \<Rightarrow> on_fail (compareValues (s\<lparr>pending := NoTask\<rparr>) v1 v2))"
  by (cases "pending s" rule: delivered.cases) (simp_all add: tick_def split: sum.splits prod.splits)

lemma tick_bare:
  "\<not> guarded (pending s) \<Longrightarrow>
   tick s =
     (case delivered (pending s) of
        None \<Rightarrow> s
      | Some (Inl e) \<Rightarrow> s\<lparr>pending := NoTask\<rparr>
      | Some (Inr (v1, v2)) \<Rightarrow> snd (compareValues (s\<lparr>pending := NoTask\<rparr>) v1 v2))"
  by (cases "pending s" rule: delivered.cases) (simp_all add: tick_def)

lemma tick_NoTask: "pending s = NoTask \<Longrightarrow> tick s = s"
  by (simp add: tick_def)

lemma run_NoTask: "pending s = NoTask \<Longrightarrow> run n s = s"
  by (induction n) (simp_all add: tick_NoTask)

subsection \<open>Pulling from a source that delivers a sequence\<close>

lemma invoke_feeds:
  assumes fs: "feeds_script (script it) xs"
  shows "\<exists>v it'. invoke it = (Inr (LibraryPromise (Fulfilled v)), it') \<and> shape it' = shape it
      \<and> pulls it' = Suc (pulls it)
      \<and> (case xs of [] \<Rightarrow> \<not> truthy v | x # xs' \<Rightarrow> v = x \<and> feeds_script (script it') xs')"
proof (cases "script it")
  case Nil
  with fs show ?thesis
    by (cases xs) (simp_all add: invoke_def)
next
  case (Cons out outs)
  show ?thesis
  proof (cases out rule: yields.cases)
    case (1 v)
    with Cons fs show ?thesis by (cases xs) (auto simp: invoke_def)
  next
    case (2 v)
    with Cons fs show ?thesis by (cases xs) (auto simp: invoke_def)
  next
    case (3 e)
    with Cons fs show ?thesis by (cases xs) (auto simp: invoke_def)
  next
    case (4 p)
    with Cons fs show ?thesis by (cases xs) (auto simp: invoke_def)
  next
    case (5 e)
    with Cons fs show ?thesis by (cases xs) (auto simp: invoke_def)
  qed
qed

lemma callIter_feeds:
  assumes "feeds it xs"
  shows "\<exists>v it'. callIter it = (Inr (LibraryPromise (Fulfilled v)), it') \<and> side it' v xs
      \<and> pulls it' = Suc (pulls it)"
proof -
  from assms have sh: "shape it = IsFunction \<or> shape it = HasNext"
    and fs: "feeds_script (script it) xs"
    by (simp_all add: feeds_def)
  from invoke_feeds [OF fs] obtain v it' where
    inv: "invoke it = (Inr (LibraryPromise (Fulfilled v)), it')" and sh': "shape it' = shape it"
    and pl: "pulls it' = Suc (pulls it)"
    and rest: "(case xs of [] \<Rightarrow> \<not> truthy v | x # xs' \<Rightarrow> v = x \<and> feeds_script (script it') xs')"
    by blast
  from sh inv have "callIter it = (Inr (LibraryPromise (Fulfilled v)), it')"
    by (auto simp: callIter_def)
  moreover from rest sh sh' have "side it' v xs"
    by (cases xs) (auto simp: side_def feeds_def)
  ultimately show ?thesis using pl by blast
qed

subsection \<open>One callback of a merge\<close>

lemma addResult_left:
  "truthy v1 \<Longrightarrow> \<not> truthy v2 \<Longrightarrow> extractFn s = defaultExtract \<Longrightarrow>
   addResult s v1 v2 None = (Inr (), emit (left_record v1) s)"
  by (simp add: addResult_def defaultExtract_def emit_def left_record_def)

lemma addResult_right:
  "\<not> truthy v1 \<Longrightarrow> truthy v2 \<Longrightarrow> extractFn s = defaultExtract \<Longrightarrow>
   addResult s v1 v2 None = (Inr (), emit (right_record v2) s)"
  by (simp add: addResult_def defaultExtract_def emit_def right_record_def)

lemma addResult_cmp:
  "truthy v1 \<Longrightarrow> truthy v2 \<Longrightarrow> extractFn s = defaultExtract \<Longrightarrow>
   addResult s v1 v2 (Some c) =
     (Inr (), emit (if c = 0 then both_record v1
                    else if c < 0 then left_record v1 else right_record v2) s)"
  by (simp add: addResult_def defaultExtract_def emit_def
      left_record_def right_record_def both_record_def)

lemma emit_fields [simp]:
  "results (emit r s) = results s @ [r]"
  "iter1 (emit r s) = iter1 s"
  "iter2 (emit r s) = iter2 s"
  "pending (emit r s) = pending s"
  "compareFn (emit r s) = compareFn s"
  "extractFn (emit r s) = extractFn s"
  by (simp_all add: emit_def)

lemma emit_dstate [simp]:
  "map_option dstate (deferred (emit r s)) = map_option dstate (deferred s)"
  by (cases "deferred s") (simp_all add: emit_def notify_def)

lemma tick_fulfilled:
  "delivered (pending x) = Some (Inr (v, w)) \<Longrightarrow> guarded (pending x) \<Longrightarrow>
   tick x = on_fail (compareValues (x\<lparr>pending := NoTask\<rparr>) v w)"
  by (simp add: tick_delivered)

lemma merging_done:
  assumes "merging cmp s v1 v2 [] []"
  shows "on_fail (compareValues s v1 v2)
         = s\<lparr>deferred := map_option (resolve (results s)) (deferred s)\<rparr>"
  using assms by (simp add: merging_def side_def compareValues_def on_fail_def)

lemma merging_left_only:
  assumes m: "merging cmp s v1 v2 (a # as) []"
  defines "x \<equiv> on_fail (compareValues s v1 v2)"
  shows "\<exists>v. delivered (pending x) = Some (Inr (v, JUndefined)) \<and> guarded (pending x)
            \<and> merging cmp (x\<lparr>pending := NoTask\<rparr>) v JUndefined as []
            \<and> results x = results s @ [left_record a]
            \<and> pulls (iter1 x) = Suc (pulls (iter1 s))
            \<and> pulls (iter2 x) = pulls (iter2 s)"
proof -
  from m have v1: "v1 = a" "truthy v1" and v2: "\<not> truthy v2"
    and f: "feeds (iter1 s) as" and ex: "extractFn s = defaultExtract"
    by (simp_all add: merging_def side_def)
  from callIter_feeds [OF f] obtain v it' where
    c: "callIter (iter1 s) = (Inr (LibraryPromise (Fulfilled v)), it')" and sd: "side it' v as"
    and pl: "pulls it' = Suc (pulls (iter1 s))"
    by blast
  have x: "x = (emit (left_record a) s)\<lparr>iter1 := it', pending := LeftT (Fulfilled v) JUndefined\<rparr>"
    using v1 v2 ex c
    by (simp add: x_def compareValues_def addResult_left stepLeft_def on_fail_def)
  show ?thesis
    using m sd pl unfolding x
    by (intro exI [of _ v]) (simp add: merging_def side_def)
qed

lemma merging_right_only:
  assumes m: "merging cmp s v1 v2 [] (b # bs)"
  defines "x \<equiv> on_fail (compareValues s v1 v2)"
  shows "\<exists>v. delivered (pending x) = Some (Inr (JUndefined, v)) \<and> guarded (pending x)
            \<and> merging cmp (x\<lparr>pending := NoTask\<rparr>) JUndefined v [] bs
            \<and> results x = results s @ [right_record b]
            \<and> pulls (iter1 x) = pulls (iter1 s)
            \<and> pulls (iter2 x) = Suc (pulls (iter2 s))"
proof -
  from m have v2: "v2 = b" "truthy v2" and v1: "\<not> truthy v1"
    and f: "feeds (iter2 s) bs" and ex: "extractFn s = defaultExtract"
    by (simp_all add: merging_def side_def)
  from callIter_feeds [OF f] obtain v it' where
    c: "callIter (iter2 s) = (Inr (LibraryPromise (Fulfilled v)), it')" and sd: "side it' v bs"
    and pl: "pulls it' = Suc (pulls (iter2 s))"
    by blast
  have x: "x = (emit (right_record b) s)\<lparr>iter2 := it', pending := RightT JUndefined (Fulfilled v)\<rparr>"
    using v1 v2 ex c
    by (simp add: x_def compareValues_def addResult_right stepRight_def on_fail_def)
  show ?thesis
    using m sd pl unfolding x
    by (intro exI [of _ v]) (simp add: merging_def side_def)
qed

lemma merging_equal:
  assumes m: "merging cmp s v1 v2 (a # as) (b # bs)" and eq: "cmp a b = 0"
  defines "x \<equiv> on_fail (compareValues s v1 v2)"
  shows "\<exists>v w. delivered (pending x) = Some (Inr (v, w)) \<and> guarded (pending x)
            \<and> merging cmp (x\<lparr>pending := NoTask\<rparr>) v w as bs
            \<and> results x = results s @ [both_record a]
            \<and> pulls (iter1 x) = Suc (pulls (iter1 s))
            \<and> pulls (iter2 x) = Suc (pulls (iter2 s))"
proof -
  from m have v1: "v1 = a" "truthy v1" and v2: "v2 = b" "truthy v2"
    and f1: "feeds (iter1 s) as" and f2: "feeds (iter2 s) bs"
    and ex: "extractFn s = defaultExtract"
    and cf: "compareFn s a b = Inr (cmp a b)"
    by (simp_all add: merging_def side_def)
  from callIter_feeds [OF f1] obtain v it1 where
    c1: "callIter (iter1 s) = (Inr (LibraryPromise (Fulfilled v)), it1)" and sd1: "side it1 v as"
    and pl1: "pulls it1 = Suc (pulls (iter1 s))"
    by blast
  from callIter_feeds [OF f2] obtain w it2 where
    c2: "callIter (iter2 s) = (Inr (LibraryPromise (Fulfilled w)), it2)" and sd2: "side it2 w bs"
    and pl2: "pulls it2 = Suc (pulls (iter2 s))"
    by blast
  have x: "x = (emit (both_record a) s)\<lparr>iter1 := it1, iter2 := it2,
                  pending := BothT (Fulfilled v) (Fulfilled w)\<rparr>"
    using v1 v2 ex c1 c2 cf eq
    by (simp add: x_def compareValues_def addResult_cmp step_def stepBoth_def on_fail_def)
  show ?thesis
    using m sd1 sd2 pl1 pl2 unfolding x
    by (intro exI [of _ v] exI [of _ w]) (simp add: merging_def side_def all2_def)
qed

lemma merging_less:
  assumes m: "merging cmp s v1 v2 (a # as) (b # bs)" and lt: "cmp a b < 0"
  defines "x \<equiv> on_fail (compareValues s v1 v2)"
  shows "\<exists>v. delivered (pending x) = Some (Inr (v, b)) \<and> guarded (pending x)
            \<and> merging cmp (x\<lparr>pending := NoTask\<rparr>) v b as (b # bs)
            \<and> results x = results s @ [left_record a]
            \<and> pulls (iter1 x) = Suc (pulls (iter1 s))
            \<and> pulls (iter2 x) = pulls (iter2 s)"
proof -
  from m have v1: "v1 = a" "truthy v1" and v2: "v2 = b" "truthy v2"
    and f1: "feeds (iter1 s) as"
    and ex: "extractFn s = defaultExtract"
    and cf: "compareFn s a b = Inr (cmp a b)"
    by (simp_all add: merging_def side_def)
  from callIter_feeds [OF f1] obtain v it1 where
    c1: "callIter (iter1 s) = (Inr (LibraryPromise (Fulfilled v)), it1)" and sd1: "side it1 v as"
    and pl1: "pulls it1 = Suc (pulls (iter1 s))"
    by blast
  have x: "x = (emit (left_record a) s)\<lparr>iter1 := it1, pending := LeftT (Fulfilled v) b\<rparr>"
    using v1 v2 ex c1 cf lt
    by (simp add: x_def compareValues_def addResult_cmp step_def stepLeft_def on_fail_def)
  show ?thesis
    using m sd1 pl1 unfolding x
    by (intro exI [of _ v]) (simp add: merging_def side_def)
qed

lemma merging_greater:
  assumes m: "merging cmp s v1 v2 (a # as) (b # bs)" and gt: "cmp a b > 0"
  defines "x \<equiv> on_fail (compareValues s v1 v2)"
  shows "\<exists>w. delivered (pending x) = Some (Inr (a, w)) \<and> guarded (pending x)
            \<and> merging cmp (x\<lparr>pending := NoTask\<rparr>) a w (a # as) bs
            \<and> results x = results s @ [right_record b]
            \<and> pulls (iter1 x) = pulls (iter1 s)
            \<and> pulls (iter2 x) = Suc (pulls (iter2 s))"
proof -
  from m have v1: "v1 = a" "truthy v1" and v2: "v2 = b" "truthy v2"
    and f2: "feeds (iter2 s) bs"
    and ex: "extractFn s = defaultExtract"
    and cf: "compareFn s a b = Inr (cmp a b)"
    by (simp_all add: merging_def side_def)
  from callIter_feeds [OF f2] obtain w it2 where
    c2: "callIter (iter2 s) = (Inr (LibraryPromise (Fulfilled w)), it2)" and sd2: "side it2 w bs"
    and pl2: "pulls it2 = Suc (pulls (iter2 s))"
    by blast
  have x: "x = (emit (right_record b) s)\<lparr>iter2 := it2, pending := RightT a (Fulfilled w)\<rparr>"
    using v1 v2 ex c2 cf gt
    by (simp add: x_def compareValues_def addResult_cmp step_def stepRight_def on_fail_def)
  show ?thesis
    using m sd2 pl2 unfolding x
    by (intro exI [of _ w]) (simp add: merging_def side_def)
qed

subsection \<open>The whole merge\<close>

lemma finished_later:
  assumes x: "results x = results s @ [r]"
    and p1: "pulls (iter1 x) = pulls (iter1 s) + d1"
    and p2: "pulls (iter2 x) = pulls (iter2 s) + d2"
    and t: "finished (x\<lparr>pending := NoTask\<rparr>) rs k1 k2 t"
  shows "finished s (r # rs) (d1 + k1) (d2 + k2) t"
  using assms by (simp add: finished_def)

lemma merge_run:
  "merging cmp s v1 v2 as bs \<Longrightarrow>
   \<exists>n\<le>length as + length bs.
     finished s (merge_diff cmp as bs) (length as) (length bs)
       (run n (on_fail (compareValues s v1 v2)))"
proof (induction cmp as bs arbitrary: s v1 v2 rule: merge_diff.induct)
  case (1 cmp)
  from merging_done [OF 1] have "finished s [] 0 0 (run 0 (on_fail (compareValues s v1 v2)))"
    using 1 by (cases "deferred s") (auto simp: finished_def merging_def resolve_def)
  then show ?case by auto
next
  case (2 cmp a as)
  define x where "x = on_fail (compareValues s v1 v2)"
  from merging_left_only [OF "2.prems"] obtain v where
    d: "delivered (pending x) = Some (Inr (v, JUndefined))"
    and g: "guarded (pending x)"
    and m: "merging cmp (x\<lparr>pending := NoTask\<rparr>) v JUndefined as []"
    and r: "results x = results s @ [left_record a]"
    and p1: "pulls (iter1 x) = pulls (iter1 s) + 1"
    and p2: "pulls (iter2 x) = pulls (iter2 s) + 0"
    unfolding x_def by auto
  from "2.IH" [OF m] obtain n where n: "n \<le> length as + length ([]::jsval list)"
    and f: "finished (x\<lparr>pending := NoTask\<rparr>) (merge_diff cmp as []) (length as) 0
              (run n (on_fail (compareValues (x\<lparr>pending := NoTask\<rparr>) v JUndefined)))"
    by auto
  have "run (Suc n) x = run n (on_fail (compareValues (x\<lparr>pending := NoTask\<rparr>) v JUndefined))"
    by (simp add: tick_fulfilled [OF d g])
  with finished_later [OF r p1 p2 f]
  have "finished s (merge_diff cmp (a # as) []) (length (a # as)) 0 (run (Suc n) x)"
    by simp
  with n show ?case unfolding x_def by (intro exI [of _ "Suc n"]) simp
next
  case (3 cmp b bs)
  define x where "x = on_fail (compareValues s v1 v2)"
  from merging_right_only [OF "3.prems"] obtain v where
    d: "delivered (pending x) = Some (Inr (JUndefined, v))"
    and g: "guarded (pending x)"
    and m: "merging cmp (x\<lparr>pending := NoTask\<rparr>) JUndefined v [] bs"
    and r: "results x = results s @ [right_record b]"
    and p1: "pulls (iter1 x) = pulls (iter1 s) + 0"
    and p2: "pulls (iter2 x) = pulls (iter2 s) + 1"
    unfolding x_def by auto
  from "3.IH" [OF m] obtain n where n: "n \<le> length ([]::jsval list) + length bs"
    and f: "finished (x\<lparr>pending := NoTask\<rparr>) (merge_diff cmp [] bs) 0 (length bs)
              (run n (on_fail (compareValues (x\<lparr>pending := NoTask\<rparr>) JUndefined v)))"
    by auto
  have "run (Suc n) x = run n (on_fail (compareValues (x\<lparr>pending := NoTask\<rparr>) JUndefined v))"
    by (simp add: tick_fulfilled [OF d g])
  with finished_later [OF r p1 p2 f]
  have "finished s (merge_diff cmp [] (b # bs)) 0 (length (b # bs)) (run (Suc n) x)"
    by simp
  with n show ?case unfolding x_def by (intro exI [of _ "Suc n"]) simp
next
  case (4 cmp a as b bs)
  define x where "x = on_fail (compareValues s v1 v2)"
  consider (eq) "cmp a b = 0" | (lt) "cmp a b < 0" | (gt) "cmp a b > 0"
    by linarith
  then show ?case
  proof cases
    case eq
    from merging_equal [OF "4.prems" eq] obtain v w where
      d: "delivered (pending x) = Some (Inr (v, w))"
      and g: "guarded (pending x)"
      and m: "merging cmp (x\<lparr>pending := NoTask\<rparr>) v w as bs"
      and r: "results x = results s @ [both_record a]"
      and p1: "pulls (iter1 x) = pulls (iter1 s) + 1"
      and p2: "pulls (iter2 x) = pulls (iter2 s) + 1"
      unfolding x_def by auto
    from "4.IH"(1) [OF eq m] obtain n where n: "n \<le> length as + length bs"
      and f: "finished (x\<lparr>pending := NoTask\<rparr>) (merge_diff cmp as bs) (length as) (length bs)
                (run n (on_fail (compareValues (x\<lparr>pending := NoTask\<rparr>) v w)))"
      by auto
    have "run (Suc n) x = run n (on_fail (compareValues (x\<lparr>pending := NoTask\<rparr>) v w))"
      by (simp add: tick_fulfilled [OF d g])
    with finished_later [OF r p1 p2 f] eq
    have "finished s (merge_diff cmp (a # as) (b # bs)) (length (a # as)) (length (b # bs))
            (run (Suc n) x)"
      by simp
    with n show ?thesis unfolding x_def by (intro exI [of _ "Suc n"]) simp
  next
    case lt
    then have ne: "cmp a b \<noteq> 0" by simp
    from merging_less [OF "4.prems" lt] obtain v where
      d: "delivered (pending x) = Some (Inr (v, b))"
      and g: "guarded (pending x)"
      and m: "merging cmp (x\<lparr>pending := NoTask\<rparr>) v b as (b # bs)"
      and r: "results x = results s @ [left_record a]"
      and p1: "pulls (iter1 x) = pulls (iter1 s) + 1"
      and p2: "pulls (iter2 x) = pulls (iter2 s) + 0"
      unfolding x_def by auto
    from "4.IH"(2) [OF ne lt m] obtain n where n: "n \<le> length as + length (b # bs)"
      and f: "finished (x\<lparr>pending := NoTask\<rparr>) (merge_diff cmp as (b # bs)) (length as)
                (length (b # bs))
                (run n (on_fail (compareValues (x\<lparr>pending := NoTask\<rparr>) v b)))"
      by auto
    have "run (Suc n) x = run n (on_fail (compareValues (x\<lparr>pending := NoTask\<rparr>) v b))"
      by (simp add: tick_fulfilled [OF d g])
    with finished_later [OF r p1 p2 f] lt
    have "finished s (merge_diff cmp (a # as) (b # bs)) (length (a # as)) (length (b # bs))
            (run (Suc n) x)"
      by simp
    with n show ?thesis unfolding x_def by (intro exI [of _ "Suc n"]) simp
  next
    case gt
    then have ne: "cmp a b \<noteq> 0" and nlt: "\<not> cmp a b < 0" by simp_all
    from merging_greater [OF "4.prems" gt] obtain w where
      d: "delivered (pending x) = Some (Inr (a, w))"
      and g: "guarded (pending x)"
      and m: "merging cmp (x\<lparr>pending := NoTask\<rparr>) a w (a # as) bs"
      and r: "results x = results s @ [right_record b]"
      and p1: "pulls (iter1 x) = pulls (iter1 s) + 0"
      and p2: "pulls (iter2 x) = pulls (iter2 s) + 1"
      unfolding x_def by auto
    from "4.IH"(3) [OF ne nlt m] obtain n where n: "n \<le> length (a # as) + length bs"
      and f: "finished (x\<lparr>pending := NoTask\<rparr>) (merge_diff cmp (a # as) bs) (length (a # as))
                (length bs)
                (run n (on_fail (compareValues (x\<lparr>pending := NoTask\<rparr>) a w)))"
      by auto
    have "run (Suc n) x = run n (on_fail (compareValues (x\<lparr>pending := NoTask\<rparr>) a w))"
      by (simp add: tick_fulfilled [OF d g])
    with finished_later [OF r p1 p2 f] gt
    have "finished s (merge_diff cmp (a # as) (b # bs)) (length (a # as)) (length (b # bs))
            (run (Suc n) x)"
      by simp
    with n show ?thesis unfolding x_def by (intro exI [of _ "Suc n"]) simp
  qed
qed

lemma run_add: "run (n + m) s = run m (run n s)"
  by (induction n arbitrary: s) simp_all

lemma finished_stays:
  assumes "finished s rs k1 k2 (run n x)" and "n \<le> m"
  shows "finished s rs k1 k2 (run m x)"
proof -
  from assms(2) obtain k where m: "m = n + k" by (auto simp: le_iff_add)
  from assms(1) have "pending (run n x) = NoTask" by (simp add: finished_def)
  then have "run k (run n x) = run n x" by (rule run_NoTask)
  with assms(1) show ?thesis by (simp add: m run_add)
qed

lemma compare_merge:
  assumes fresh: "deferred s0 = None"
    and ex: "extractFn s0 = defaultExtract"
    and cf: "\<forall>a\<in>set as. \<forall>b\<in>set bs. compareFn s0 a b = Inr (cmp a b)"
    and tr: "list_all truthy as" "list_all truthy bs"
    and f1: "feeds i1 as" and f2: "feeds i2 bs"
    and n: "length as + length bs < n"
  shows "fst (compare s0 i1 i2) = Inr ()"
    and "pending (run n (snd (compare s0 i1 i2))) = NoTask"
    and "results (run n (snd (compare s0 i1 i2))) = merge_diff cmp as bs"
    and "map_option dstate (deferred (run n (snd (compare s0 i1 i2))))
           = Some (Resolved (merge_diff cmp as bs))"
    and "pulls (iter1 (run n (snd (compare s0 i1 i2)))) = pulls i1 + Suc (length as)"
    and "pulls (iter2 (run n (snd (compare s0 i1 i2)))) = pulls i2 + Suc (length bs)"
proof -
  from callIter_feeds [OF f1] obtain v it1 where
    c1: "callIter i1 = (Inr (LibraryPromise (Fulfilled v)), it1)" and sd1: "side it1 v as"
    and pl1: "pulls it1 = Suc (pulls i1)"
    by blast
  from callIter_feeds [OF f2] obtain w it2 where
    c2: "callIter i2 = (Inr (LibraryPromise (Fulfilled w)), it2)" and sd2: "side it2 w bs"
    and pl2: "pulls it2 = Suc (pulls i2)"
    by blast
  define s1 where "s1 = s0\<lparr>iter1 := it1, iter2 := it2, results := [],
                           deferred := Some Deferred\<rparr>"
  have cmp: "compare s0 i1 i2 = (Inr (), s1\<lparr>pending := BothT (Fulfilled v) (Fulfilled w)\<rparr>)"
    using fresh c1 c2 by (simp add: compare_def stepBoth_def s1_def)
  show "fst (compare s0 i1 i2) = Inr ()" by (simp add: cmp)
  have m: "merging cmp (s1\<lparr>pending := NoTask\<rparr>) v w as bs"
    using ex cf tr sd1 sd2 by (simp add: merging_def s1_def Deferred_def)
  from merge_run [OF m] obtain k where k: "k \<le> length as + length bs"
    and fin: "finished (s1\<lparr>pending := NoTask\<rparr>) (merge_diff cmp as bs) (length as) (length bs)
                (run k (on_fail (compareValues (s1\<lparr>pending := NoTask\<rparr>) v w)))"
    by blast
  have t: "tick (s1\<lparr>pending := BothT (Fulfilled v) (Fulfilled w)\<rparr>)
             = on_fail (compareValues (s1\<lparr>pending := NoTask\<rparr>) v w)"
    by (simp add: tick_def all2_def)
  from n obtain n' where n': "n = Suc n'" and kn: "k \<le> n'"
    using k by (cases n) auto
  from finished_stays [OF fin kn]
  have "finished (s1\<lparr>pending := NoTask\<rparr>) (merge_diff cmp as bs) (length as) (length bs)
          (run n (snd (compare s0 i1 i2)))"
    by (simp add: cmp n' t)
  then show "pending (run n (snd (compare s0 i1 i2))) = NoTask"
    and "results (run n (snd (compare s0 i1 i2))) = merge_diff cmp as bs"
    and "map_option dstate (deferred (run n (snd (compare s0 i1 i2))))
           = Some (Resolved (merge_diff cmp as bs))"
    and "pulls (iter1 (run n (snd (compare s0 i1 i2)))) = pulls i1 + Suc (length as)"
    and "pulls (iter2 (run n (snd (compare s0 i1 i2)))) = pulls i2 + Suc (length bs)"
    by (simp_all add: finished_def s1_def pl1 pl2)
qed

subsection \<open>The sorted-merge comparison of sorted sequences\<close>

lemma tagged_simps [simp]:
  "tagged t [] = []"
  "tagged t (left_record v # rs) = (if t = ''left'' then v # tagged t rs else tagged t rs)"
  "tagged t (right_record v # rs) = (if t = ''right'' then v # tagged t rs else tagged t rs)"
  "tagged t (both_record v # rs) = (if t = ''both'' then v # tagged t rs else tagged t rs)"
  by (auto simp: tagged_def left_record_def right_record_def both_record_def)

lemma record_value [simp]:
  "rec_value (left_record v) = v" "rec_value (right_record v) = v" "rec_value (both_record v) = v"
  by (simp_all add: left_record_def right_record_def both_record_def)

lemma left_subseq: "subseq (tagged ''left'' (merge_diff cmp as bs)) as"
  by (induction cmp as bs rule: merge_diff.induct) auto

lemma both_subseq: "subseq (tagged ''both'' (merge_diff cmp as bs)) as"
  by (induction cmp as bs rule: merge_diff.induct) auto

lemma right_subseq: "subseq (tagged ''right'' (merge_diff cmp as bs)) bs"
  by (induction cmp as bs rule: merge_diff.induct) auto

lemma tags_total:
  "length (tagged ''left'' (merge_diff cmp as bs)) + length (tagged ''right'' (merge_diff cmp as bs))
     + length (tagged ''both'' (merge_diff cmp as bs)) = length (merge_diff cmp as bs)"
  by (induction cmp as bs rule: merge_diff.induct) auto

lemma ordered_by_hd:
  "ordered_by key cmp (a # as) (b # bs) \<Longrightarrow>
     (cmp a b = 0 \<longleftrightarrow> key a = key b) \<and> (cmp a b < 0 \<longleftrightarrow> key a < key b)"
  by (simp add: ordered_by_def)

lemma key_not_in:
  fixes k :: "'k::linorder"
  shows "k < k' \<Longrightarrow> sorted (k' # ks) \<Longrightarrow> k \<notin> set (k' # ks)"
  by auto

lemma tagged_mset:
  fixes key :: "jsval \<Rightarrow> 'k::linorder"
  assumes "ordered_by key cmp as bs" and "sorted (map key as)" and "sorted (map key bs)"
  shows "mset (map key (tagged ''left'' (merge_diff cmp as bs)))
           = mset (map key as) - mset (map key bs)
       \<and> mset (map key (tagged ''right'' (merge_diff cmp as bs)))
           = mset (map key bs) - mset (map key as)
       \<and> mset (map key (tagged ''both'' (merge_diff cmp as bs)))
           = mset (map key as) \<inter># mset (map key bs)"
  using assms
proof (induction cmp as bs rule: merge_diff.induct)
  case (1 cmp)
  show ?case by simp
next
  case (2 cmp a as)
  from "2.prems"(2) have sa: "sorted (map key as)" by simp
  have o: "ordered_by key cmp as []" by (simp add: ordered_by_def)
  from "2.IH" [OF o sa] show ?case by simp
next
  case (3 cmp b bs)
  from "3.prems"(3) have sb: "sorted (map key bs)" by simp
  have o: "ordered_by key cmp [] bs" by (simp add: ordered_by_def)
  from "3.IH" [OF o _ sb] show ?case by simp
next
  case (4 cmp a as b bs)
  note h = ordered_by_hd [OF "4.prems"(1)]
  from "4.prems"(2) have sa: "sorted (map key as)" by simp
  from "4.prems"(3) have sb: "sorted (map key bs)" by simp
  consider (eq) "cmp a b = 0" | (lt) "cmp a b < 0" | (gt) "cmp a b > 0" by linarith
  then show ?case
  proof cases
    case eq
    with h have k: "key a = key b" by simp
    have o: "ordered_by key cmp as bs"
      using "4.prems"(1) by (simp add: ordered_by_def)
    from "4.IH"(1) [OF eq o sa sb] eq k show ?thesis by simp
  next
    case lt
    with h have k: "key a < key b" by simp
    from key_not_in [OF k, of "map key bs"] "4.prems"(3)
    have nin: "key a \<notin># add_mset (key b) (mset (map key bs))" by simp
    from lt have ne: "cmp a b \<noteq> 0" by simp
    have o: "ordered_by key cmp as (b # bs)"
      using "4.prems"(1) by (simp add: ordered_by_def)
    from "4.IH"(2) [OF ne lt o sa "4.prems"(3)] lt ne nin show ?thesis
      by (simp add: inter_add_left1)
  next
    case gt
    with h have k: "key b < key a" by auto
    from key_not_in [OF k, of "map key as"] "4.prems"(2)
    have nin: "key b \<notin># add_mset (key a) (mset (map key as))" by simp
    from gt have ne: "cmp a b \<noteq> 0" and nlt: "\<not> cmp a b < 0" by simp_all
    have o: "ordered_by key cmp (a # as) bs"
      using "4.prems"(1) by (simp add: ordered_by_def)
    from "4.IH"(3) [OF ne nlt o "4.prems"(2) sb] gt ne nlt nin show ?thesis
      by (simp add: inter_add_right1)
  qed
qed

lemma merge_values:
  "r \<in> set (merge_diff cmp as bs) \<Longrightarrow> rec_value r \<in> set as \<union> set bs"
  by (induction cmp as bs rule: merge_diff.induct) (auto split: if_splits)

lemma merge_lower_bound:
  fixes key :: "jsval \<Rightarrow> 'k::linorder"
  assumes "\<forall>x\<in>set as. k \<le> key x" and "\<forall>x\<in>set bs. k \<le> key x"
  shows "\<forall>r\<in>set (merge_diff cmp as bs). k \<le> key (rec_value r)"
  using assms merge_values [of _ cmp as bs] by blast

lemma merge_sorted:
  fixes key :: "jsval \<Rightarrow> 'k::linorder"
  assumes "ordered_by key cmp as bs" and "sorted (map key as)" and "sorted (map key bs)"
  shows "sorted (map (key \<circ> rec_value) (merge_diff cmp as bs))"
  using assms
proof (induction cmp as bs rule: merge_diff.induct)
  case (1 cmp)
  show ?case by simp
next
  case (2 cmp a as)
  from "2.prems"(2) have sa: "sorted (map key as)" and la: "\<forall>x\<in>set as. key a \<le> key x"
    by simp_all
  have o: "ordered_by key cmp as []" by (simp add: ordered_by_def)
  from merge_lower_bound [of as "key a" key "[]" cmp] la "2.IH" [OF o sa]
  show ?case by simp
next
  case (3 cmp b bs)
  from "3.prems"(3) have sb: "sorted (map key bs)" and lb: "\<forall>x\<in>set bs. key b \<le> key x"
    by simp_all
  have o: "ordered_by key cmp [] bs" by (simp add: ordered_by_def)
  from merge_lower_bound [of "[]" "key b" key bs cmp] lb "3.IH" [OF o _ sb]
  show ?case by simp
next
  case (4 cmp a as b bs)
  note h = ordered_by_hd [OF "4.prems"(1)]
  from "4.prems"(2) have sa: "sorted (map key as)" and la: "\<forall>x\<in>set as. key a \<le> key x"
    by simp_all
  from "4.prems"(3) have sb: "sorted (map key bs)" and lb: "\<forall>x\<in>set bs. key b \<le> key x"
    by simp_all
  consider (eq) "cmp a b = 0" | (lt) "cmp a b < 0" | (gt) "cmp a b > 0" by linarith
  then show ?case
  proof cases
    case eq
    with h have k: "key a = key b" by simp
    have o: "ordered_by key cmp as bs"
      using "4.prems"(1) by (simp add: ordered_by_def)
    from lb k have lb': "\<forall>x\<in>set bs. key a \<le> key x" by simp
    from merge_lower_bound [OF la lb', of cmp] "4.IH"(1) [OF eq o sa sb] eq
    show ?thesis by simp
  next
    case lt
    with h have k: "key a < key b" by simp
    from lt have ne: "cmp a b \<noteq> 0" by simp
    have o: "ordered_by key cmp as (b # bs)"
      using "4.prems"(1) by (simp add: ordered_by_def)
    from lb k have lb': "\<forall>x\<in>set (b # bs). key a \<le> key x" by fastforce
    from merge_lower_bound [OF la lb', of cmp] "4.IH"(2) [OF ne lt o sa "4.prems"(3)] lt ne
    show ?thesis by simp
  next
    case gt
    with h have k: "key b < key a" by auto
    from gt have ne: "cmp a b \<noteq> 0" and nlt: "\<not> cmp a b < 0" by simp_all
    have o: "ordered_by key cmp (a # as) bs"
      using "4.prems"(1) by (simp add: ordered_by_def)
    from la k have la': "\<forall>x\<in>set (a # as). key b \<le> key x" by fastforce
    from merge_lower_bound [OF la' lb, of cmp] "4.IH"(3) [OF ne nlt o "4.prems"(2) sb] gt ne nlt
    show ?thesis by simp
  qed
qed

subsection \<open>Sources of finite sequences\<close>

lemma feeds_source_of: "feeds (source_of xs) xs"
  by (induction xs) (simp_all add: feeds_def source_of_def)

lemma feeds_script_falsy:
  "\<not> truthy v \<Longrightarrow> feeds_script (map Returns (xs @ v # rest)) xs"
  by (induction xs) simp_all

lemma feeds_source_of_falsy: "\<not> truthy v \<Longrightarrow> feeds (source_of (xs @ v # rest)) xs"
  using feeds_script_falsy [of v xs rest] by (simp add: feeds_def source_of_def)

lemma IterativeCompare_fields [simp]:
  "deferred (IterativeCompare lt opts) = None"
  "pending (IterativeCompare lt opts) = NoTask"
  "results (IterativeCompare lt opts) = []"
  "opt_extractFn opts = None \<Longrightarrow> extractFn (IterativeCompare lt opts) = defaultExtract"
  "opt_compareFn opts = None \<Longrightarrow> compareFn (IterativeCompare lt opts) = defaultCmp lt"
  by (simp_all add: IterativeCompare_def)

lemma defaultCmp_numbers:
  "defaultCmp number_lt (JNum x) (JNum y) = Inr (number_order (JNum x) (JNum y))"
  by (simp add: defaultCmp_def number_order_def num_key_def js_strict_eq_def)

subsection \<open>Sources that cannot be invoked\<close>

lemma callIter_NotInvokable:
  "shape i = NotInvokable \<Longrightarrow> callIter i = (Inl invalid_shape_error, i)"
  by (simp add: callIter_def invalid_shape_error_def)

lemma callIter_Inr_pulls:
  "callIter i = (Inr p, i') \<Longrightarrow> pulls i' = Suc (pulls i)"
  by (auto simp: callIter_def invoke_def Let_def split: shape.splits list.splits outcome.splits)

lemma compare_first_invalid:
  assumes "deferred s0 = None" and "shape i1 = NotInvokable"
  shows "compare s0 i1 i2 = (Inl invalid_shape_error,
           s0\<lparr>iter1 := i1, iter2 := i2, results := [], deferred := Some Deferred\<rparr>)"
  using assms by (simp add: compare_def stepBoth_def callIter_NotInvokable)

lemma compare_second_invalid:
  assumes "deferred s0 = None" and "callIter i1 = (Inr p, i1')" and "shape i2 = NotInvokable"
  shows "compare s0 i1 i2 = (Inl invalid_shape_error,
           s0\<lparr>iter1 := i1', iter2 := i2, results := [], deferred := Some Deferred\<rparr>)"
  using assms by (simp add: compare_def stepBoth_def callIter_NotInvokable)

subsection \<open>What leaves the results alone\<close>

lemma results_on_fail [simp]: "results (on_fail x) = results (snd x)"
  by (cases x) (simp add: on_fail_def split: sum.splits)

lemma results_stepLeft [simp]: "results (snd (stepLeft s v)) = results s"
  by (simp add: stepLeft_def split: prod.splits sum.splits thenable.splits)

lemma results_stepRight [simp]: "results (snd (stepRight s v)) = results s"
  by (simp add: stepRight_def split: prod.splits sum.splits thenable.splits)

lemma results_stepBoth [simp]: "results (snd (stepBoth s)) = results s"
  by (simp add: stepBoth_def split: prod.splits sum.splits thenable.splits)

lemma results_step [simp]: "results (snd (step s v1 v2 c)) = results s"
  by (simp add: step_def)

lemma results_tick:
  assumes "delivered (pending s) = Some (Inr (v, w))"
  shows "results (tick s) = results (snd (compareValues (s\<lparr>pending := NoTask\<rparr>) v w))"
proof (cases "guarded (pending s)")
  case True
  with assms show ?thesis by (simp add: tick_delivered)
next
  case False
  with assms show ?thesis by (simp add: tick_bare)
qed

lemma compareValues_falsy_left:
  "\<not> truthy v \<Longrightarrow> compareValues s v w = compareValues s JUndefined w"
  by (simp add: compareValues_def addResult_def)

lemma compareValues_falsy_right:
  "\<not> truthy v \<Longrightarrow> compareValues s w v = compareValues s w JUndefined"
  by (simp add: compareValues_def addResult_def)

subsection \<open>Progress\<close>

lemma prefixes_of_snoc: "prefixes_of (rs @ [r]) = prefixes_of rs @ [rs @ [r]]"
  by (auto simp: prefixes_of_def)

lemma prefixes_of_Nil [simp]: "prefixes_of [] = []"
  by (simp add: prefixes_of_def)

lemma pending_addResult [simp]: "pending (snd (addResult s v1 v2 c)) = pending s"
  by (simp add: addResult_def Let_def split: sum.splits)

lemma addResult_emits:
  assumes "c \<noteq> None \<or> \<not> truthy v1 \<or> \<not> truthy v2"
  shows "(\<exists>e. addResult s v1 v2 c = (Inl e, s)) \<or> (\<exists>r. addResult s v1 v2 c = (Inr (), emit r s))"
proof (cases c)
  case None
  with assms show ?thesis
    by (cases "extractFn s v1 JNull (- 1)"; cases "extractFn s JNull v2 1")
      (auto simp: addResult_def emit_def)
next
  case (Some k)
  consider "k = 0" | "k < 0" | "k > 0" by linarith
  then show ?thesis
    by cases
      (cases "extractFn s v1 v2 0"; cases "extractFn s v1 JNull (- 1)";
        cases "extractFn s JNull v2 1"; auto simp: addResult_def emit_def Some)+
qed

lemma prog_emit:
  "map_option dstate (deferred s) = Some Pending \<Longrightarrow> prog (emit r s) = prog s @ [results s @ [r]]"
  by (cases "deferred s") (auto simp: prog_def emit_def notify_def)

lemma callIter_library:
  assumes "library_only it"
  shows "library_only (snd (callIter it)) \<and> (\<forall>p. fst (callIter it) \<noteq> Inr (OtherThenable p))"
proof (cases "script it")
  case Nil
  with assms show ?thesis
    by (auto simp: callIter_def invoke_def library_only_def split: shape.splits)
next
  case (Cons out outs)
  with assms show ?thesis
    by (cases out) (auto simp: callIter_def invoke_def library_only_def split: shape.splits)
qed

lemma stepLeft_library:
  assumes "on_library s"
  shows "on_library (snd (stepLeft s v))
    \<and> (fst (stepLeft s v) = Inl e \<longrightarrow> pending (snd (stepLeft s v)) = pending s)"
proof -
  from assms have l: "library_only (iter1 s)" by (simp add: on_library_def)
  obtain r it where c: "callIter (iter1 s) = (r, it)" by (cases "callIter (iter1 s)")
  with callIter_library [OF l] have "library_only it" and "\<And>p. r \<noteq> Inr (OtherThenable p)"
    by simp_all
  with assms c show ?thesis
    by (auto simp: stepLeft_def on_library_def split: sum.splits thenable.splits)
qed

lemma stepRight_library:
  assumes "on_library s"
  shows "on_library (snd (stepRight s v))
    \<and> (fst (stepRight s v) = Inl e \<longrightarrow> pending (snd (stepRight s v)) = pending s)"
proof -
  from assms have l: "library_only (iter2 s)" by (simp add: on_library_def)
  obtain r it where c: "callIter (iter2 s) = (r, it)" by (cases "callIter (iter2 s)")
  with callIter_library [OF l] have "library_only it" and "\<And>p. r \<noteq> Inr (OtherThenable p)"
    by simp_all
  with assms c show ?thesis
    by (auto simp: stepRight_def on_library_def split: sum.splits thenable.splits)
qed

lemma stepBoth_library:
  assumes "on_library s"
  shows "on_library (snd (stepBoth s))
    \<and> (fst (stepBoth s) = Inl e \<longrightarrow> pending (snd (stepBoth s)) = pending s)"
proof -
  from assms have l1: "library_only (iter1 s)" and l2: "library_only (iter2 s)"
    by (simp_all add: on_library_def)
  obtain r1 it1 where c1: "callIter (iter1 s) = (r1, it1)" by (cases "callIter (iter1 s)")
  obtain r2 it2 where c2: "callIter (iter2 s) = (r2, it2)" by (cases "callIter (iter2 s)")
  from c1 callIter_library [OF l1] have "library_only it1" by simp
  moreover from c2 callIter_library [OF l2] have "library_only it2" by simp
  ultimately show ?thesis
    using assms c1 c2 by (auto simp: stepBoth_def on_library_def split: sum.splits)
qed

lemma step_library:
  assumes "on_library s"
  shows "on_library (snd (step s v1 v2 c))
    \<and> (fst (step s v1 v2 c) = Inl e \<longrightarrow> pending (snd (step s v1 v2 c)) = pending s)"
  using stepLeft_library [OF assms] stepRight_library [OF assms] stepBoth_library [OF assms]
  by (simp add: step_def)

lemma on_library_emit [simp]: "on_library (emit r s) = on_library s"
  by (simp add: on_library_def)

lemma on_library_on_fail [simp]: "on_library (on_fail x) = on_library (snd x)"
  by (cases x) (simp add: on_fail_def on_library_def split: sum.splits)

lemma on_library_deferred [simp]: "on_library (s\<lparr>deferred := d\<rparr>) = on_library s"
  by (simp add: on_library_def)

lemma on_library_idle: "on_library s \<Longrightarrow> on_library (s\<lparr>pending := NoTask\<rparr>)"
  by (simp add: on_library_def)

lemma grows_refl [simp]: "grows s s"
  by (simp add: grows_def)

lemma grows_emit:
  "map_option dstate (deferred s) = Some Pending \<Longrightarrow> grows s (emit r s)"
  by (simp add: grows_def prog_emit)

lemma grows_same:
  "grows s t \<Longrightarrow> results u = results t \<Longrightarrow> prog u = prog t \<Longrightarrow> grows s u"
  by (auto simp: grows_def)

lemma prog_stepLeft [simp]: "prog (snd (stepLeft s v)) = prog s"
  by (simp add: prog_def)

lemma prog_stepRight [simp]: "prog (snd (stepRight s v)) = prog s"
  by (simp add: prog_def)

lemma prog_stepBoth [simp]: "prog (snd (stepBoth s)) = prog s"
  by (simp add: prog_def)

lemma prog_step [simp]: "prog (snd (step s v1 v2 c)) = prog s"
  by (simp add: prog_def)

lemma prog_on_fail [simp]: "prog (on_fail x) = prog (snd x)"
  by (cases x; cases "deferred (snd x)") (auto simp: on_fail_def prog_def reject_def split: sum.splits)

lemma prog_resolve [simp]:
  "prog (s\<lparr>deferred := map_option (resolve rs) (deferred s)\<rparr>) = prog s"
  by (cases "deferred s") (auto simp: prog_def resolve_def)

lemma prog_pending [simp]: "prog (s\<lparr>pending := t\<rparr>) = prog s"
  by (simp add: prog_def)

lemma compareValues_effect:
  assumes p: "map_option dstate (deferred s) = Some Pending" and l: "on_library s"
  shows "grows s (snd (compareValues s v1 v2))
    \<and> on_library (snd (compareValues s v1 v2))
    \<and> (fst (compareValues s v1 v2) = Inl e \<longrightarrow>
          pending (snd (compareValues s v1 v2)) = pending s
        \<and> map_option dstate (deferred (snd (compareValues s v1 v2))) = Some Pending)
    \<and> (map_option dstate (deferred (snd (compareValues s v1 v2))) = Some Pending
        \<or> pending (snd (compareValues s v1 v2)) = pending s)"
proof -
  have after: "\<And>r x. (results (snd x) = results (emit r s) \<and> prog (snd x) = prog (emit r s))
      \<Longrightarrow> grows s (snd x)"
    using grows_same [OF grows_emit [OF p]] by blast
  have dp: "\<And>r. map_option dstate (deferred (emit r s)) = Some Pending" using p by simp
  have le: "\<And>r. on_library (emit r s)" using l by simp
  consider (both) "truthy v1" "truthy v2" | (left) "truthy v1" "\<not> truthy v2"
    | (right) "\<not> truthy v1" "truthy v2" | (none) "\<not> truthy v1" "\<not> truthy v2"
    by blast
  then show ?thesis
  proof cases
    case both
    show ?thesis
    proof (cases "compareFn s v1 v2")
      case (Inl e')
      with both p l show ?thesis by (simp add: compareValues_def)
    next
      case (Inr c)
      from addResult_emits [of "Some c" v1 v2 s]
      consider e' where "addResult s v1 v2 (Some c) = (Inl e', s)"
        | r where "addResult s v1 v2 (Some c) = (Inr (), emit r s)"
        by auto
      then show ?thesis
      proof cases
        case 1
        with both Inr p l show ?thesis by (simp add: compareValues_def)
      next
        case 2
        with both Inr have cv: "compareValues s v1 v2 = step (emit r s) v1 v2 c"
          by (simp add: compareValues_def)
        have g: "grows s (snd (step (emit r s) v1 v2 c))"
          by (rule after [of _ r]) simp
        have d: "map_option dstate (deferred (snd (step (emit r s) v1 v2 c))) = Some Pending"
          using dp [of r] by simp
        from g d step_library [OF le, of r v1 v2 c e] show ?thesis
          by (simp add: cv)
      qed
    qed
  next
    case left
    from addResult_emits [of None v1 v2 s] left
    consider e' where "addResult s v1 v2 None = (Inl e', s)"
      | r where "addResult s v1 v2 None = (Inr (), emit r s)"
      by auto
    then show ?thesis
    proof cases
      case 1
      with left p l show ?thesis by (simp add: compareValues_def)
    next
      case 2
      with left have cv: "compareValues s v1 v2 = stepLeft (emit r s) JUndefined"
        by (simp add: compareValues_def)
      have g: "grows s (snd (stepLeft (emit r s) JUndefined))"
        by (rule after [of _ r]) simp
      have d: "map_option dstate (deferred (snd (stepLeft (emit r s) JUndefined))) = Some Pending"
        using dp [of r] by simp
      from g d stepLeft_library [OF le, of r JUndefined e] show ?thesis
        by (simp add: cv)
    qed
  next
    case right
    from addResult_emits [of None v1 v2 s] right
    consider e' where "addResult s v1 v2 None = (Inl e', s)"
      | r where "addResult s v1 v2 None = (Inr (), emit r s)"
      by auto
    then show ?thesis
    proof cases
      case 1
      with right p l show ?thesis by (simp add: compareValues_def)
    next
      case 2
      with right have cv: "compareValues s v1 v2 = stepRight (emit r s) JUndefined"
        by (simp add: compareValues_def)
      have g: "grows s (snd (stepRight (emit r s) JUndefined))"
        by (rule after [of _ r]) simp
      have d: "map_option dstate (deferred (snd (stepRight (emit r s) JUndefined))) = Some Pending"
        using dp [of r] by simp
      from g d stepRight_library [OF le, of r JUndefined e] show ?thesis
        by (simp add: cv)
    qed
  next
    case none
    with l show ?thesis
      by (simp add: compareValues_def grows_def)
  qed
qed

lemma pending_on_fail [simp]: "pending (on_fail x) = pending (snd x)"
  by (cases x) (simp add: on_fail_def split: sum.splits)


lemma on_fail_returned: "fst x = Inr u \<Longrightarrow> on_fail x = snd x"
  by (cases x) (simp add: on_fail_def)

lemma grows_sound:
  assumes "prog s = prefixes_of (results s)" and "grows s t"
  shows "prog t = prefixes_of (results t)"
proof -
  from assms(2) consider "results t = results s" "prog t = prog s"
    | "results t \<noteq> []" "butlast (results t) = results s" "prog t = prog s @ [results t]"
    by (auto simp: grows_def)
  then show ?thesis
  proof cases
    case 1
    with assms(1) show ?thesis by simp
  next
    case 2
    from 2(1) 2(2) have "results t = results s @ [last (results t)]"
      using append_butlast_last_id by metis
    then have "prefixes_of (results t) = prefixes_of (results s) @ [results t]"
      using prefixes_of_snoc [of "results s" "last (results t)"] by simp
    with 2(3) assms(1) show ?thesis by simp
  qed
qed

lemma tick_effect:
  assumes "sound s"
  shows "grows s (tick s) \<and> sound (tick s)"
proof -
  from assms have dn: "deferred s \<noteq> None" and pr: "prog s = prefixes_of (results s)"
    and pe: "pending s \<noteq> NoTask \<longrightarrow> map_option dstate (deferred s) = Some Pending"
    and ol: "on_library s"
    by (simp_all add: sound_def)
  from ol have gd: "guarded (pending s)" by (simp add: on_library_def)
  have dn': "deferred (tick s) \<noteq> None" using dn by simp
  let ?s = "s\<lparr>pending := NoTask\<rparr>"
  have ol': "on_library ?s" by (rule on_library_idle [OF ol])
  show ?thesis
  proof (cases "delivered (pending s)")
    case None
    then have "pending s = NoTask" by (cases "pending s" rule: delivered.cases) simp_all
    then have "tick s = s" by (rule tick_NoTask)
    with assms show ?thesis by simp
  next
    case (Some d)
    then have "pending s \<noteq> NoTask" by auto
    with pe have run: "map_option dstate (deferred ?s) = Some Pending" by simp
    show ?thesis
    proof (cases d)
      case (Inl e)
      with Some have t: "tick s = on_fail (Inl e, ?s)" by (simp add: tick_delivered [OF gd])
      have g: "grows s (tick s)" by (simp add: t grows_def)
      have "on_library (tick s)" using ol' by (simp add: t)
      with grows_sound [OF pr g] dn' show ?thesis
        by (simp add: sound_def g) (simp add: t)
    next
      case (Inr vs)
      obtain v1 v2 where vs: "vs = (v1, v2)" by (cases vs)
      with Some Inr have t: "tick s = on_fail (compareValues ?s v1 v2)"
        by (simp add: tick_delivered [OF gd])
      let ?x = "compareValues ?s v1 v2"
      have gx: "grows ?s (snd ?x)"
        using compareValues_effect [OF run ol'] by blast
      then have g: "grows s (tick s)" by (simp add: t grows_def)
      have lx: "on_library (tick s)"
        using compareValues_effect [OF run ol', of v1 v2] by (simp add: t)
      have "pending (tick s) \<noteq> NoTask \<longrightarrow> map_option dstate (deferred (tick s)) = Some Pending"
      proof (cases "fst ?x")
        case (Inl e)
        with compareValues_effect [OF run ol', of v1 v2 e] show ?thesis by (simp add: t)
      next
        case (Inr u)
        from on_fail_returned [OF Inr] have "tick s = snd ?x" by (simp add: t)
        with compareValues_effect [OF run ol', of v1 v2] show ?thesis by auto
      qed
      with grows_sound [OF pr g] dn' g lx show ?thesis by (simp add: sound_def)
    qed
  qed
qed

lemma sound_run: "sound s \<Longrightarrow> sound (run n s)"
  by (induction n arbitrary: s) (simp_all add: tick_effect)

lemma sound_compare:
  assumes "library_only i1" and "library_only i2"
  shows "sound (snd (compare (IterativeCompare lt opts) i1 i2))"
proof -
  let ?s = "(IterativeCompare lt opts)\<lparr>iter1 := i1, iter2 := i2, results := [],
      deferred := Some Deferred\<rparr>"
  have l: "on_library ?s" using assms by (simp add: on_library_def)
  have c: "compare (IterativeCompare lt opts) i1 i2 = stepBoth ?s" by (simp add: compare_def)
  from stepBoth_library [OF l] show ?thesis
    by (simp add: c sound_def prog_def Deferred_def)
qed

lemma grows_prefix:
  assumes "grows s t"
  shows "prefix (results s) (results t)"
proof -
  from assms consider "results t = results s"
    | "results t \<noteq> []" "butlast (results t) = results s"
    by (auto simp: grows_def)
  then show ?thesis
  proof cases
    case 1
    then show ?thesis by simp
  next
    case 2
    then have "results t = results s @ [last (results t)]"
      using append_butlast_last_id by metis
    then show ?thesis by (metis prefixI)
  qed
qed

lemma results_run_prefix: "sound s \<Longrightarrow> prefix (results s) (results (run m s))"
proof (induction m arbitrary: s)
  case 0
  show ?case by simp
next
  case (Suc m)
  from tick_effect [OF Suc.prems] have "grows s (tick s)" and "sound (tick s)" by simp_all
  from grows_prefix [OF this(1)] Suc.IH [OF this(2)] show ?case
    by (auto intro: prefix_order.trans)
qed

subsection \<open>Exceptions in a callback\<close>




section \<open>The claims\<close>

subsection \<open>The merge\<close>

text \<open>
  Claim C1, as the code has it. Let the two sources deliver, as raw values or through
  promises of the library, the sequences \<open>as\<close> and \<open>bs\<close>, all of whose elements are
  truthy, each non-decreasing in the key by which the configured comparator orders, and
  let the extractor be the default one. Then \<^verbatim>\<open>compare\<close> returns its promise, and after
  at most \<open>length as + length bs + 1\<close> turns of the event loop the operation is resolved
  with the three-way sorted-merge comparison of \<open>as\<close> and \<open>bs\<close>, which counts
  occurrences: the \<open>both\<close> records are a subsequence of \<open>as\<close> whose keys are the
  intersection of the keys of the two sequences as multisets, one record for each pair of
  matching occurrences; the \<open>left\<close> records are a subsequence of \<open>as\<close> whose keys are the
  multiset of the keys of \<open>as\<close> without those of \<open>bs\<close>, one record for each occurrence
  in \<open>as\<close> without a matching occurrence in \<open>bs\<close>; the \<open>right\<close> records are a
  subsequence of \<open>bs\<close> whose keys are the multiset of the keys of \<open>bs\<close> without those
  of \<open>as\<close>; every record carries one of the three tags; and the list is in merge order
  (non-decreasing by key).
\<close>

theorem compare_is_sorted_merge:
  fixes key :: "jsval \<Rightarrow> 'k::linorder"
  assumes ex: "opt_extractFn opts = None"
    and cf: "\<forall>a\<in>set as. \<forall>b\<in>set bs. compareFn (IterativeCompare lt opts) a b = Inr (cmp a b)"
    and ob: "ordered_by key cmp as bs"
    and tr: "list_all truthy as" "list_all truthy bs"
    and so: "sorted (map key as)" "sorted (map key bs)"
    and fe: "feeds i1 as" "feeds i2 bs"
    and n: "length as + length bs < n"
  shows "fst (compare (IterativeCompare lt opts) i1 i2) = Inr ()
    \<and> map_option dstate (deferred (run n (snd (compare (IterativeCompare lt opts) i1 i2))))
        = Some (Resolved (merge_diff cmp as bs))
    \<and> subseq (tagged ''both'' (merge_diff cmp as bs)) as
    \<and> mset (map key (tagged ''both'' (merge_diff cmp as bs)))
        = mset (map key as) \<inter># mset (map key bs)
    \<and> subseq (tagged ''left'' (merge_diff cmp as bs)) as
    \<and> mset (map key (tagged ''left'' (merge_diff cmp as bs)))
        = mset (map key as) - mset (map key bs)
    \<and> subseq (tagged ''right'' (merge_diff cmp as bs)) bs
    \<and> mset (map key (tagged ''right'' (merge_diff cmp as bs)))
        = mset (map key bs) - mset (map key as)
    \<and> length (tagged ''both'' (merge_diff cmp as bs)) + length (tagged ''left'' (merge_diff cmp as bs))
        + length (tagged ''right'' (merge_diff cmp as bs)) = length (merge_diff cmp as bs)
    \<and> sorted (map (key \<circ> rec_value) (merge_diff cmp as bs))"
proof -
  have fresh: "deferred (IterativeCompare lt opts) = None" by simp
  have dx: "extractFn (IterativeCompare lt opts) = defaultExtract" using ex by simp
  note run = compare_merge [OF fresh dx cf tr fe n]
  note ms = tagged_mset [OF ob so]
  have tt: "length (tagged ''both'' (merge_diff cmp as bs)) + length (tagged ''left'' (merge_diff cmp as bs))
        + length (tagged ''right'' (merge_diff cmp as bs)) = length (merge_diff cmp as bs)"
    using tags_total [of cmp as bs] by simp
  show ?thesis
    using run(1) run(4) ms tt both_subseq [of cmp as bs] left_subseq [of cmp as bs]
      right_subseq [of cmp as bs] merge_sorted [OF ob so]
    by simp
qed


text \<open>The example of the specification: 1, 3, 5, 7 against 3, 4, 5, 8 in the natural order.\<close>

theorem compare_is_sorted_merge_witness:
  "map_option dstate (deferred (run 9 (snd (compare (IterativeCompare number_lt no_options)
      (source_of [JNum 1, JNum 3, JNum 5, JNum 7]) (source_of [JNum 3, JNum 4, JNum 5, JNum 8])))))
   = Some (Resolved [left_record (JNum 1), both_record (JNum 3), right_record (JNum 4),
        both_record (JNum 5), left_record (JNum 7), right_record (JNum 8)])"
proof -
  let ?as = "[JNum 1, JNum 3, JNum 5, JNum 7]" and ?bs = "[JNum 3, JNum 4, JNum 5, JNum 8]"
  have ex: "opt_extractFn no_options = None" by (simp add: no_options_def)
  have cf: "\<forall>a\<in>set ?as. \<forall>b\<in>set ?bs.
      compareFn (IterativeCompare number_lt no_options) a b = Inr (number_order a b)"
    by (simp add: no_options_def defaultCmp_numbers)
  have ob: "ordered_by num_key number_order ?as ?bs"
    by (simp add: ordered_by_def num_key_def number_order_def)
  have tr: "list_all truthy ?as" "list_all truthy ?bs" by simp_all
  have so: "sorted (map num_key ?as)" "sorted (map num_key ?bs)" by (simp_all add: num_key_def)
  have n: "length ?as + length ?bs < 9" by simp
  from compare_is_sorted_merge [OF ex cf ob tr so feeds_source_of feeds_source_of n]
  show ?thesis
    by (simp add: number_order_def num_key_def)
qed

text \<open>
  The claim as stated fails in four ways. A sequence with a falsy element is cut at that
  element: 0, 1 against 1 resolves with \<open>right 1\<close> alone, where the sorted-merge
  comparison is \<open>left 0\<close>, \<open>both 1\<close>. An element of the left sequence that is in the
  right sequence gets a \<open>left\<close> record when it occurs more often on the left: 1, 1
  against 1 resolves with \<open>both 1\<close>, \<open>left 1\<close>. A source that returns thenables other
  than promises of the library is not merged: 1, 2 against 3 is rejected with the
  \<^verbatim>\<open>TypeError\<close> of the missing \<^verbatim>\<open>fail\<close>. And a custom extractor decides what the records
  are: 1 against 1 resolves with its record, which is no \<open>both\<close> record.
\<close>

theorem sorted_merge_fails_as_stated:
  "map_option dstate (deferred (run 3 (snd (compare (IterativeCompare number_lt no_options)
      (source_of [JNum 0, JNum 1]) (source_of [JNum 1])))))
     = Some (Resolved [right_record (JNum 1)])
   \<and> merge_diff number_order [JNum 0, JNum 1] [JNum 1]
     = [left_record (JNum 0), both_record (JNum 1)]
   \<and> sorted (map num_key [JNum 0, JNum 1])
   \<and> map_option dstate (deferred (run 3 (snd (compare (IterativeCompare number_lt no_options)
      (source_of [JNum 1, JNum 1]) (source_of [JNum 1])))))
     = Some (Resolved [both_record (JNum 1), left_record (JNum 1)])
   \<and> map_option dstate (deferred (run 5 (snd (compare (IterativeCompare number_lt no_options)
      (thenable_source [Fulfilled (JNum 1), Fulfilled (JNum 2)]) (source_of [JNum 3])))))
     = Some (Rejected (TypeError ''fail is not a function''))
   \<and> map_option dstate (deferred (run 2 (snd (compare
      (IterativeCompare number_lt \<lparr>opt_compareFn = None, opt_extractFn = Some constant_extract\<rparr>)
      (source_of [JNum 1]) (source_of [JNum 1])))))
     = Some (Resolved [\<lparr>rec_value = JNull, rec_exists = ''changed''\<rparr>])"
  by code_simp

subsection \<open>Single use\<close>

text \<open>
  Claim C2. After a first call of \<^verbatim>\<open>compare\<close> on an instance, and after any number
  of turns of the event loop (so also before the first call has resolved), a second call
  throws \<^verbatim>\<open>Already comparing\<close> at once and leaves the whole instance as it was: the
  iterators, the results, the deferred and the registered callback. The run of the first
  call goes on from there exactly as it would have without the second call.
\<close>

theorem second_compare_fails:
  "compare (run n (snd (compare s0 i1 i2))) j1 j2
     = (Inl (Error ''Already comparing''), run n (snd (compare s0 i1 i2)))
   \<and> (\<forall>m. run m (snd (compare (run n (snd (compare s0 i1 i2))) j1 j2))
           = run m (run n (snd (compare s0 i1 i2))))"
proof -
  have "deferred (run n (snd (compare s0 i1 i2))) \<noteq> None"
    by (simp add: deferred_compare)
  then have "compare (run n (snd (compare s0 i1 i2))) j1 j2
     = (Inl (Error ''Already comparing''), run n (snd (compare s0 i1 i2)))"
    by (rule compare_again)
  then show ?thesis by simp
qed


theorem second_compare_fails_witness:
  "fst (compare (run 1 (snd (compare (IterativeCompare number_lt no_options)
          (source_of [JNum 1, JNum 3]) (source_of [JNum 3]))))
        (source_of [JNum 2]) (source_of []))
   = Inl (Error ''Already comparing'')"
  using second_compare_fails [of 1 "IterativeCompare number_lt no_options"
      "source_of [JNum 1, JNum 3]" "source_of [JNum 3]" "source_of [JNum 2]" "source_of []"]
  by simp

subsection \<open>The default comparator\<close>

text \<open>
  Claim C8, as the code has it. The default comparator answers 0 on \<open>x\<close> and \<open>x\<close> for
  every value \<open>x\<close> other than \<open>NaN\<close>, whatever the relational comparison of the language
  does. On \<open>NaN\<close> it answers 1, since \<^verbatim>\<open>NaN === NaN\<close> and \<^verbatim>\<open>NaN < NaN\<close> are both
  false.
\<close>

theorem defaultCmp_reflexive: "x \<noteq> JNaN \<Longrightarrow> defaultCmp lt x x = Inr 0"
  by (simp add: defaultCmp_def js_strict_eq_def)

theorem defaultCmp_reflexive_witness: "defaultCmp number_lt (JNum 3) (JNum 3) = Inr 0"
  using defaultCmp_reflexive [of "JNum 3" number_lt] by simp

theorem defaultCmp_NaN: "defaultCmp number_lt JNaN JNaN = Inr 1"
  by (simp add: defaultCmp_def js_strict_eq_def)

subsection \<open>Sources of an invalid shape\<close>

text \<open>
  Claim C4, as the code has it. A source that is neither a function nor an object with a
  \<^verbatim>\<open>next\<close> method, and is not \<^verbatim>\<open>null\<close> or \<^verbatim>\<open>undefined\<close>, makes \<^verbatim>\<open>compare\<close>
  throw \<^verbatim>\<open>Iterator does not appear to be invokable\<close> before that source is invoked.
  When it is the first source, neither source has been invoked. When it is the second
  source and the first source's invocation returns, the first source has been invoked
  once by then: \<^verbatim>\<open>_stepBoth\<close> calls \<^verbatim>\<open>callIter\<close> on the first source before it looks
  at the second.
\<close>

theorem invalid_shape_fails_before_its_pull:
  assumes "shape i = NotInvokable"
  shows "fst (compare (IterativeCompare lt opts) i i2) = Inl invalid_shape_error
       \<and> pulls (iter1 (snd (compare (IterativeCompare lt opts) i i2))) = pulls i
       \<and> pulls (iter2 (snd (compare (IterativeCompare lt opts) i i2))) = pulls i2
       \<and> (callIter i1 = (Inr p, i1') \<longrightarrow>
            fst (compare (IterativeCompare lt opts) i1 i) = Inl invalid_shape_error
          \<and> pulls (iter2 (snd (compare (IterativeCompare lt opts) i1 i))) = pulls i
          \<and> pulls (iter1 (snd (compare (IterativeCompare lt opts) i1 i))) = Suc (pulls i1))"
proof -
  have fresh: "deferred (IterativeCompare lt opts) = None" by simp
  show ?thesis
    using compare_first_invalid [OF fresh assms, of i2]
      compare_second_invalid [OF fresh _ assms, of i1 p i1']
    by (auto dest: callIter_Inr_pulls)
qed


theorem invalid_shape_fails_before_its_pull_witness:
  "fst (compare (IterativeCompare number_lt no_options) not_a_source (source_of [JNum 1]))
     = Inl invalid_shape_error
   \<and> pulls (iter2 (snd (compare (IterativeCompare number_lt no_options) not_a_source
        (source_of [JNum 1])))) = 0
   \<and> pulls (iter1 (snd (compare (IterativeCompare number_lt no_options) (source_of [JNum 1])
        not_a_source))) = 1"
proof -
  have s: "shape not_a_source = NotInvokable" by (simp add: not_a_source_def)
  have c: "callIter (source_of [JNum 1])
      = (Inr (LibraryPromise (Fulfilled (JNum 1))), \<lparr>shape = IsFunction, script = [], pulls = 1\<rparr>)"
    by (simp add: callIter_def invoke_def source_of_def)
  from invalid_shape_fails_before_its_pull [OF s, where lt = number_lt and opts = no_options
      and ?i2.0 = "source_of [JNum 1]" and ?i1.0 = "source_of [JNum 1]"
      and p = "LibraryPromise (Fulfilled (JNum 1))"
      and i1' = "\<lparr>shape = IsFunction, script = [], pulls = 1\<rparr>"] c
  show ?thesis by (simp add: not_a_source_def source_of_def)
qed

text \<open>
  The claim as stated fails on a valid first source with an invalid second one, where the
  first source has been invoked when the error is thrown, and on \<^verbatim>\<open>undefined\<close> as a
  source, where the error is a \<^verbatim>\<open>TypeError\<close>.
\<close>

theorem invalid_second_source_after_a_pull:
  "fst (compare (IterativeCompare number_lt no_options) (source_of [JNum 1]) not_a_source)
     = Inl invalid_shape_error
   \<and> pulls (iter1 (snd (compare (IterativeCompare number_lt no_options) (source_of [JNum 1])
        not_a_source))) = 1
   \<and> fst (compare (IterativeCompare number_lt no_options) no_source (source_of [JNum 1]))
     = Inl (TypeError ''Cannot read property next'')"
  by (simp add: compare_def stepBoth_def callIter_def invoke_def source_of_def not_a_source_def
      no_source_def invalid_shape_error_def IterativeCompare_def no_options_def)

text \<open>
  Claim C10. When the first call of \<^verbatim>\<open>compare\<close> meets a source of an invalid shape,
  the error is thrown to the caller of \<^verbatim>\<open>compare\<close>; the deferred has been created by
  then and stays pending for ever, no callback is registered and no record is ever added;
  every later call of \<^verbatim>\<open>compare\<close> on the instance throws \<^verbatim>\<open>Already comparing\<close>.
\<close>

theorem invalid_shape_throws_and_locks:
  assumes "shape i1 = NotInvokable \<or> (shape i2 = NotInvokable \<and> callIter i1 = (Inr p, i1'))"
  shows "fst (compare (IterativeCompare lt opts) i1 i2) = Inl invalid_shape_error
    \<and> deferred (snd (compare (IterativeCompare lt opts) i1 i2)) = Some Deferred
    \<and> results (snd (compare (IterativeCompare lt opts) i1 i2)) = []
    \<and> pending (snd (compare (IterativeCompare lt opts) i1 i2)) = NoTask
    \<and> (\<forall>n. run n (snd (compare (IterativeCompare lt opts) i1 i2))
             = snd (compare (IterativeCompare lt opts) i1 i2))
    \<and> (\<forall>n j1 j2. compare (run n (snd (compare (IterativeCompare lt opts) i1 i2))) j1 j2
         = (Inl (Error ''Already comparing''), snd (compare (IterativeCompare lt opts) i1 i2)))"
proof -
  have fresh: "deferred (IterativeCompare lt opts) = None" by simp
  define t where "t = snd (compare (IterativeCompare lt opts) i1 i2)"
  from assms have r: "fst (compare (IterativeCompare lt opts) i1 i2) = Inl invalid_shape_error
      \<and> deferred t = Some Deferred \<and> results t = [] \<and> pending t = NoTask"
    unfolding t_def
    using compare_first_invalid [OF fresh, of i1 i2]
      compare_second_invalid [OF fresh, of i1 p i1' i2]
    by auto
  then have stay: "\<And>n. run n t = t" by (simp add: run_NoTask)
  from r have "deferred t \<noteq> None" by simp
  then have "\<And>j1 j2. compare t j1 j2 = (Inl (Error ''Already comparing''), t)"
    by (rule compare_again)
  with r stay show ?thesis unfolding t_def by simp
qed


theorem invalid_shape_throws_and_locks_witness:
  "fst (compare (IterativeCompare number_lt no_options) not_a_source (source_of [JNum 1]))
     = Inl invalid_shape_error
   \<and> deferred (snd (compare (IterativeCompare number_lt no_options) not_a_source (source_of [JNum 1])))
     = Some Deferred
   \<and> fst (compare (run 3 (snd (compare (IterativeCompare number_lt no_options) not_a_source
        (source_of [JNum 1])))) (source_of [JNum 1]) (source_of [JNum 1]))
     = Inl (Error ''Already comparing'')"
proof -
  have s: "shape not_a_source = NotInvokable \<or>
     (shape (source_of [JNum 1]) = NotInvokable \<and> callIter not_a_source = (Inr (LibraryPromise (Fulfilled JNull)), not_a_source))"
    by (simp add: not_a_source_def)
  note th = invalid_shape_throws_and_locks [OF s, where lt = number_lt and opts = no_options]
  from th have a: "fst (compare (IterativeCompare number_lt no_options) not_a_source (source_of [JNum 1]))
     = Inl invalid_shape_error"
    and b: "deferred (snd (compare (IterativeCompare number_lt no_options) not_a_source (source_of [JNum 1])))
     = Some Deferred"
    by blast+
  from th have "compare (run 3 (snd (compare (IterativeCompare number_lt no_options) not_a_source
        (source_of [JNum 1])))) (source_of [JNum 1]) (source_of [JNum 1])
     = (Inl (Error ''Already comparing''),
        snd (compare (IterativeCompare number_lt no_options) not_a_source (source_of [JNum 1])))"
    by blast
  then have c: "fst (compare (run 3 (snd (compare (IterativeCompare number_lt no_options) not_a_source
        (source_of [JNum 1])))) (source_of [JNum 1]) (source_of [JNum 1]))
     = Inl (Error ''Already comparing'')"
    by (simp only: fst_conv)
  from a b c show ?thesis by blast
qed


subsection \<open>Equal elements\<close>

text \<open>
  Claim C9. With the default extractor, when the callback receives two truthy values that
  the comparator finds equal, the record added is the \<open>both\<close> record of the left value;
  the right value appears nowhere in it.
\<close>

theorem both_record_carries_left_value:
  assumes ex: "extractFn s = defaultExtract"
    and d: "delivered (pending s) = Some (Inr (v1, v2))"
    and t: "truthy v1" "truthy v2"
    and c: "compareFn s v1 v2 = Inr 0"
  shows "results (tick s) = results s @ [\<lparr>rec_value = v1, rec_exists = ''both''\<rparr>]"
proof -
  let ?s = "s\<lparr>pending := NoTask\<rparr>"
  have a: "addResult ?s v1 v2 (Some 0) = (Inr (), emit (both_record v1) ?s)"
    using addResult_cmp [of v1 v2 ?s 0] t ex by simp
  have "compareValues ?s v1 v2 = step (emit (both_record v1) ?s) v1 v2 0"
    using t c a by (simp add: compareValues_def)
  then show ?thesis
    by (simp add: results_tick [OF d] both_record_def)
qed

theorem both_record_carries_left_value_witness:
  "results (tick (snd (compare
      (IterativeCompare number_lt \<lparr>opt_compareFn = Some always_equal, opt_extractFn = None\<rparr>)
      (source_of [JNum 1]) (source_of [JNum 2]))))
   = [\<lparr>rec_value = JNum 1, rec_exists = ''both''\<rparr>]"
proof -
  let ?s = "snd (compare
      (IterativeCompare number_lt \<lparr>opt_compareFn = Some always_equal, opt_extractFn = None\<rparr>)
      (source_of [JNum 1]) (source_of [JNum 2]))"
  have s: "?s = (IterativeCompare number_lt \<lparr>opt_compareFn = Some always_equal, opt_extractFn = None\<rparr>)
      \<lparr>iter1 := \<lparr>shape = IsFunction, script = [], pulls = 1\<rparr>,
       iter2 := \<lparr>shape = IsFunction, script = [], pulls = 1\<rparr>,
       results := [], deferred := Some Deferred,
       pending := BothT (Fulfilled (JNum 1)) (Fulfilled (JNum 2))\<rparr>"
    by (simp add: compare_def stepBoth_def callIter_def invoke_def source_of_def)
  have ex: "extractFn ?s = defaultExtract" unfolding s by (simp add: IterativeCompare_def)
  have d: "delivered (pending ?s) = Some (Inr (JNum 1, JNum 2))" by (simp add: s all2_def)
  have c: "compareFn ?s (JNum 1) (JNum 2) = Inr 0"
    unfolding s by (simp add: IterativeCompare_def always_equal_def)
  have r: "results ?s = []" by (simp add: s)
  from both_record_carries_left_value [OF ex d _ _ c] r show ?thesis by simp
qed


subsection \<open>Exhaustion\<close>

text \<open>
  Claim C7. When the first invocation of each source delivers a falsy value, through a
  promise of the library or any other thenable, \<^verbatim>\<open>compare\<close> returns its promise with the
  deferred pending and no progress notified, and from the next turn of the event loop on
  the operation is resolved with the empty list, still with no progress notification.
\<close>

theorem both_empty_resolves_without_progress:
  assumes c1: "callIter i1 = (Inr t1, i1')"
    and c2: "callIter i2 = (Inr t2, i2')"
    and s1: "settlement t1 = Fulfilled v1"
    and s2: "settlement t2 = Fulfilled v2"
    and f: "\<not> truthy v1" "\<not> truthy v2"
  shows "fst (compare (IterativeCompare lt opts) i1 i2) = Inr ()
     \<and> deferred (snd (compare (IterativeCompare lt opts) i1 i2)) = Some Deferred
     \<and> deferred (run (Suc n) (snd (compare (IterativeCompare lt opts) i1 i2)))
         = Some \<lparr>dstate = Resolved [], progress = []\<rparr>
     \<and> results (run (Suc n) (snd (compare (IterativeCompare lt opts) i1 i2))) = []"
proof -
  define s0 where "s0 = (IterativeCompare lt opts)\<lparr>iter1 := i1', iter2 := i2', results := [],
      deferred := Some Deferred\<rparr>"
  have cmp: "compare (IterativeCompare lt opts) i1 i2
      = (Inr (), s0\<lparr>pending := BothT (Fulfilled v1) (Fulfilled v2)\<rparr>)"
    using c1 c2 s1 s2 by (simp add: compare_def stepBoth_def s0_def)
  have t: "tick (s0\<lparr>pending := BothT (Fulfilled v1) (Fulfilled v2)\<rparr>)
      = s0\<lparr>pending := NoTask, deferred := Some \<lparr>dstate = Resolved [], progress = []\<rparr>\<rparr>"
    using f by (simp add: tick_def all2_def compareValues_def on_fail_def s0_def resolve_def
        Deferred_def)
  have "run (Suc n) (snd (compare (IterativeCompare lt opts) i1 i2))
      = s0\<lparr>pending := NoTask, deferred := Some \<lparr>dstate = Resolved [], progress = []\<rparr>\<rparr>"
    by (simp add: cmp t run_NoTask)
  then show ?thesis by (simp add: cmp s0_def)
qed

theorem both_empty_resolves_without_progress_witness:
  "deferred (run 1 (snd (compare (IterativeCompare number_lt no_options) (source_of [])
      (thenable_source [Fulfilled JNull]))))
     = Some \<lparr>dstate = Resolved [], progress = []\<rparr>"
proof -
  have c1: "callIter (source_of [])
      = (Inr (LibraryPromise (Fulfilled JUndefined)), \<lparr>shape = IsFunction, script = [], pulls = 1\<rparr>)"
    by (simp add: callIter_def invoke_def source_of_def)
  have c2: "callIter (thenable_source [Fulfilled JNull])
      = (Inr (OtherThenable (Fulfilled JNull)), \<lparr>shape = HasNext, script = [], pulls = 1\<rparr>)"
    by (simp add: callIter_def invoke_def thenable_source_def)
  from both_empty_resolves_without_progress [OF c1 c2, where lt = number_lt
      and opts = no_options and n = 0]
  show ?thesis by simp
qed

text \<open>
  Claim C5. A falsy value delivered by a source is handled exactly as \<^verbatim>\<open>undefined\<close>
  is, on either side. So a source that delivers the truthy elements \<open>as\<close>, then a falsy
  value such as 0 or the empty string, then anything else, gives the same result as a
  source that delivers \<open>as\<close> and ends: the falsy value gets no record and the source is
  not invoked again after it.
\<close>

theorem falsy_value_is_exhaustion:
  assumes f: "\<not> truthy v"
  shows "compareValues s v w = compareValues s JUndefined w
     \<and> compareValues s w v = compareValues s w JUndefined
     \<and> (opt_extractFn opts = None
          \<and> (\<forall>a\<in>set as. \<forall>b\<in>set bs. compareFn (IterativeCompare lt opts) a b = Inr (cmp a b))
          \<and> list_all truthy as \<and> list_all truthy bs \<and> length as + length bs < n \<longrightarrow>
          map_option dstate (deferred (run n (snd (compare (IterativeCompare lt opts)
              (source_of (as @ v # rest)) (source_of bs)))))
            = Some (Resolved (merge_diff cmp as bs))
        \<and> pulls (iter1 (run n (snd (compare (IterativeCompare lt opts)
              (source_of (as @ v # rest)) (source_of bs))))) = Suc (length as)
        \<and> map_option dstate (deferred (run n (snd (compare (IterativeCompare lt opts)
              (source_of as) (source_of (bs @ v # rest))))))
            = Some (Resolved (merge_diff cmp as bs))
        \<and> pulls (iter2 (run n (snd (compare (IterativeCompare lt opts)
              (source_of as) (source_of (bs @ v # rest)))))) = Suc (length bs)
        \<and> map_option dstate (deferred (run n (snd (compare (IterativeCompare lt opts)
              (source_of as) (source_of bs)))))
            = Some (Resolved (merge_diff cmp as bs)))"
proof -
  have fresh: "deferred (IterativeCompare lt opts) = None" by simp
  {
    assume ex: "opt_extractFn opts = None"
      and cf: "\<forall>a\<in>set as. \<forall>b\<in>set bs. compareFn (IterativeCompare lt opts) a b = Inr (cmp a b)"
      and tr: "list_all truthy as" "list_all truthy bs"
      and n: "length as + length bs < n"
    have dx: "extractFn (IterativeCompare lt opts) = defaultExtract" using ex by simp
    note l = compare_merge [OF fresh dx cf tr feeds_source_of_falsy [OF f] feeds_source_of n]
    note r = compare_merge [OF fresh dx cf tr feeds_source_of feeds_source_of_falsy [OF f] n]
    note b = compare_merge [OF fresh dx cf tr feeds_source_of feeds_source_of n]
    have "map_option dstate (deferred (run n (snd (compare (IterativeCompare lt opts)
              (source_of (as @ v # rest)) (source_of bs)))))
            = Some (Resolved (merge_diff cmp as bs))
        \<and> pulls (iter1 (run n (snd (compare (IterativeCompare lt opts)
              (source_of (as @ v # rest)) (source_of bs))))) = Suc (length as)
        \<and> map_option dstate (deferred (run n (snd (compare (IterativeCompare lt opts)
              (source_of as) (source_of (bs @ v # rest))))))
            = Some (Resolved (merge_diff cmp as bs))
        \<and> pulls (iter2 (run n (snd (compare (IterativeCompare lt opts)
              (source_of as) (source_of (bs @ v # rest)))))) = Suc (length bs)
        \<and> map_option dstate (deferred (run n (snd (compare (IterativeCompare lt opts)
              (source_of as) (source_of bs)))))
            = Some (Resolved (merge_diff cmp as bs))"
      using l(4) l(5) r(4) r(6) b(4) by (simp add: source_of_def)
  }
  then show ?thesis
    using compareValues_falsy_left [OF f] compareValues_falsy_right [OF f] by blast
qed


theorem falsy_value_is_exhaustion_witness:
  "map_option dstate (deferred (run 4 (snd (compare (IterativeCompare number_lt no_options)
      (source_of [JNum 1, JNum 0, JNum 2]) (source_of [JNum 1, JNum 3])))))
     = Some (Resolved [both_record (JNum 1), right_record (JNum 3)])
   \<and> pulls (iter1 (run 4 (snd (compare (IterativeCompare number_lt no_options)
      (source_of [JNum 1, JNum 0, JNum 2]) (source_of [JNum 1, JNum 3]))))) = 2
   \<and> map_option dstate (deferred (run 4 (snd (compare (IterativeCompare number_lt no_options)
      (source_of [JNum 1]) (source_of [JNum 1, JNum 3])))))
     = Some (Resolved [both_record (JNum 1), right_record (JNum 3)])"
proof -
  have f: "\<not> truthy (JNum 0)" by simp
  have h: "opt_extractFn no_options = None
          \<and> (\<forall>a\<in>set [JNum 1]. \<forall>b\<in>set [JNum 1, JNum 3].
               compareFn (IterativeCompare number_lt no_options) a b = Inr (number_order a b))
          \<and> list_all truthy [JNum 1] \<and> list_all truthy [JNum 1, JNum 3]
          \<and> length [JNum 1] + length [JNum 1, JNum 3] < 4"
    by (simp add: no_options_def defaultCmp_numbers)
  from falsy_value_is_exhaustion [OF f, where lt = number_lt and opts = no_options
      and as = "[JNum 1]" and bs = "[JNum 1, JNum 3]" and cmp = number_order and n = 4
      and rest = "[JNum 2]"] h
  show ?thesis
    by (simp add: number_order_def num_key_def)
qed

subsection \<open>Failures\<close>




subsection \<open>Progress\<close>

text \<open>
  On sources that return raw values and promises of the library, and no other thenables,
  the progress notifications follow the results. In every state of a run, the
  notifications made so far are exactly the non-empty prefixes of the results, shortest
  first. One turn of the event loop either adds nothing and notifies nothing, or appends
  one record and makes one notification with the whole list. The results of a state are a
  prefix of the results of every later state.
\<close>

lemma progress_follows_results:
  assumes "library_only i1" and "library_only i2"
  shows "prog (run n (snd (compare (IterativeCompare lt opts) i1 i2)))
     = prefixes_of (results (run n (snd (compare (IterativeCompare lt opts) i1 i2))))
   \<and> grows (run n (snd (compare (IterativeCompare lt opts) i1 i2)))
        (tick (run n (snd (compare (IterativeCompare lt opts) i1 i2))))
   \<and> prefix (results (run n (snd (compare (IterativeCompare lt opts) i1 i2))))
        (results (run m (run n (snd (compare (IterativeCompare lt opts) i1 i2)))))"
proof -
  have s: "sound (run n (snd (compare (IterativeCompare lt opts) i1 i2)))"
    by (rule sound_run [OF sound_compare [OF assms]])
  from s tick_effect [OF s] results_run_prefix [OF s] show ?thesis
    by (simp add: sound_def)
qed

text \<open>
  On such sources, the record the extractor returns in a turn is the one record that the
  turn appends, and the turn notifies once, with the list that ends in it.
\<close>

lemma emitted_record_is_appended_and_notified:
  assumes lib: "library_only i1" "library_only i2"
    and s: "s = run n (snd (compare (IterativeCompare lt opts) i1 i2))"
    and d: "delivered (pending s) = Some (Inr (v1, v2))"
    and r: "truthy v1 \<and> truthy v2 \<and> compareFn s v1 v2 = Inr c
              \<and> (if c = 0 then extractFn s v1 v2 0
                  else if c < 0 then extractFn s v1 JNull (- 1)
                  else extractFn s JNull v2 1) = Inr r
            \<or> truthy v1 \<and> \<not> truthy v2 \<and> extractFn s v1 JNull (- 1) = Inr r
            \<or> \<not> truthy v1 \<and> truthy v2 \<and> extractFn s JNull v2 1 = Inr r"
  shows "results (tick s) = results s @ [r] \<and> prog (tick s) = prog s @ [results s @ [r]]"
proof -
  have so: "sound s" unfolding s by (rule sound_run [OF sound_compare [OF lib]])
  then have gd: "guarded (pending s)" by (simp add: sound_def on_library_def)
  let ?s = "s\<lparr>pending := NoTask\<rparr>"
  from d have "pending s \<noteq> NoTask" by auto
  with so have run: "map_option dstate (deferred ?s) = Some Pending" by (simp add: sound_def)
  have t: "tick s = on_fail (compareValues ?s v1 v2)"
    using d by (simp add: tick_delivered [OF gd])
  from r consider
    (cmp) "truthy v1" "truthy v2" "compareFn s v1 v2 = Inr c"
      "(if c = 0 then extractFn s v1 v2 0
        else if c < 0 then extractFn s v1 JNull (- 1)
        else extractFn s JNull v2 1) = Inr r"
    | (left) "truthy v1" "\<not> truthy v2" "extractFn s v1 JNull (- 1) = Inr r"
    | (right) "\<not> truthy v1" "truthy v2" "extractFn s JNull v2 1 = Inr r"
    by blast
  then have "results (snd (compareValues ?s v1 v2)) = results (emit r ?s)
      \<and> prog (snd (compareValues ?s v1 v2)) = prog (emit r ?s)"
  proof cases
    case cmp
    then have "addResult ?s v1 v2 (Some c) = (Inr (), emit r ?s)"
      by (auto simp: addResult_def emit_def split: if_splits)
    with cmp have "compareValues ?s v1 v2 = step (emit r ?s) v1 v2 c"
      by (simp add: compareValues_def)
    then show ?thesis by simp
  next
    case left
    then have "addResult ?s v1 v2 None = (Inr (), emit r ?s)"
      by (simp add: addResult_def emit_def)
    with left have "compareValues ?s v1 v2 = stepLeft (emit r ?s) JUndefined"
      by (simp add: compareValues_def)
    then show ?thesis by simp
  next
    case right
    then have "addResult ?s v1 v2 None = (Inr (), emit r ?s)"
      by (simp add: addResult_def emit_def)
    with right have "compareValues ?s v1 v2 = stepRight (emit r ?s) JUndefined"
      by (simp add: compareValues_def)
    then show ?thesis by simp
  qed
  with prog_emit [OF run, of r] show ?thesis by (simp add: t)
qed

text \<open>With 1 against 2, the first turn appends \<open>left 1\<close> and notifies the list that holds it.\<close>

lemma emitted_record_is_appended_and_notified_example:
  "results (tick (snd (compare (IterativeCompare number_lt no_options)
      (source_of [JNum 1]) (source_of [JNum 2])))) = [left_record (JNum 1)]
   \<and> prog (tick (snd (compare (IterativeCompare number_lt no_options)
      (source_of [JNum 1]) (source_of [JNum 2])))) = [[left_record (JNum 1)]]"
proof -
  let ?s = "snd (compare (IterativeCompare number_lt no_options)
      (source_of [JNum 1]) (source_of [JNum 2]))"
  have l: "library_only (source_of [JNum 1])" "library_only (source_of [JNum 2])"
    by (simp_all add: library_only_def source_of_def)
  have s: "?s = run 0 ?s" by simp
  have d: "delivered (pending ?s) = Some (Inr (JNum 1, JNum 2))" by code_simp
  have c: "compareFn ?s (JNum 1) (JNum 2) = Inr (- 1)" by code_simp
  have e: "extractFn ?s (JNum 1) JNull (- 1) = Inr (left_record (JNum 1))" by code_simp
  have r: "results ?s = []" "prog ?s = []" by code_simp+
  have "truthy (JNum 1) \<and> truthy (JNum 2) \<and> compareFn ?s (JNum 1) (JNum 2) = Inr (- 1)
      \<and> (if (- 1 :: int) = 0 then extractFn ?s (JNum 1) (JNum 2) 0
          else if (- 1 :: int) < 0 then extractFn ?s (JNum 1) JNull (- 1)
          else extractFn ?s JNull (JNum 2) 1) = Inr (left_record (JNum 1))"
    using c e by simp
  from emitted_record_is_appended_and_notified [OF l s d disjI1 [OF this]] r
  show ?thesis by simp
qed

text \<open>
  Claim C6, on a source that returns thenables other than promises of the library. The
  left source returns such thenables for 1, 2 and the end, the right source returns 3.
  The first turn appends \<open>left 1\<close> and notifies once; its \<^verbatim>\<open>_stepLeft\<close> registers the
  next callback on the thenable and then throws the \<^verbatim>\<open>TypeError\<close> of the missing
  \<^verbatim>\<open>fail\<close>, which rejects the operation. The callback still runs in the second turn and
  appends \<open>left 2\<close>, and the rejected deferred ignores the notification: two records,
  one notification. After four turns there are three records and still one notification.
\<close>

theorem bare_callback_appends_without_notifying:
  "results (run 2 (snd (compare (IterativeCompare number_lt no_options)
      (thenable_source [Fulfilled (JNum 1), Fulfilled (JNum 2), Fulfilled JUndefined])
      (source_of [JNum 3]))))
     = [left_record (JNum 1), left_record (JNum 2)]
   \<and> deferred (run 2 (snd (compare (IterativeCompare number_lt no_options)
      (thenable_source [Fulfilled (JNum 1), Fulfilled (JNum 2), Fulfilled JUndefined])
      (source_of [JNum 3]))))
     = Some \<lparr>dstate = Rejected (TypeError ''fail is not a function''),
             progress = [[left_record (JNum 1)]]\<rparr>
   \<and> results (run 4 (snd (compare (IterativeCompare number_lt no_options)
      (thenable_source [Fulfilled (JNum 1), Fulfilled (JNum 2), Fulfilled JUndefined])
      (source_of [JNum 3]))))
     = [left_record (JNum 1), left_record (JNum 2), right_record (JNum 3)]
   \<and> prog (run 4 (snd (compare (IterativeCompare number_lt no_options)
      (thenable_source [Fulfilled (JNum 1), Fulfilled (JNum 2), Fulfilled JUndefined])
      (source_of [JNum 3]))))
     = [[left_record (JNum 1)]]"
  by code_simp

end
